theory Spec2Isabelle
  imports Main
begin

section \<open>The program: day 12, regions of a garden grid\<close>

text \<open>
  The model follows \<^verbatim>\<open>src/D12/main.ts\<close> function by function. Coordinates and counters are
  JavaScript numbers that only ever hold small integers; they are modelled as \<^typ>\<open>int\<close> and
  \<^typ>\<open>nat\<close> (values beyond \<open>2^53\<close>, where a number stops being an exact integer, are outside the
  model). A grid cell holds one UTF-16 code unit, modelled as a \<^typ>\<open>char\<close>; texts with a code
  unit above 255 are outside the model. Reading a row
  past its end gives JavaScript's \<^verbatim>\<open>undefined\<close>, which is the value \<open>None\<close> of the type
  \<open>symbol\<close>; it can be compared with \<^verbatim>\<open>===\<close> like any other value.

  A function whose result type is an \<open>option\<close> returns \<open>None\<close> where the script would not
  produce a value: a \<^verbatim>\<open>TypeError\<close> from indexing \<^verbatim>\<open>undefined\<close>, a read of the \<^verbatim>\<open>visited\<close>
  matrix outside its allocated size, a lookup of a key the union-find never stored, or a
  loop that does not end.

  The module-level constants \<^verbatim>\<open>grid\<close>, \<^verbatim>\<open>height\<close> and \<^verbatim>\<open>width\<close> are the fields of the
  record \<open>input\<close>, which is passed to every function that reads them. Local variables that
  would clash with a field or with a constant of the library carry another name (\<open>cs\<close> for
  \<^verbatim>\<open>cells\<close>, \<open>par\<close> for \<^verbatim>\<open>parent\<close>, \<open>sizes\<close> for \<^verbatim>\<open>size\<close>, \<open>uf_find\<close> and \<open>uf_union\<close> for
  \<^verbatim>\<open>find\<close> and \<^verbatim>\<open>union\<close>).
\<close>

type_synonym Cell = "int \<times> int"
type_synonym symbol = "char option"

record Region =
  cells :: "Cell list"
  char :: symbol

record input =
  grid :: "char list list"
  height :: int
  width :: int

subsection \<open>Reading the grid\<close>

text \<open>
  \<^verbatim>\<open>String.prototype.trim\<close> removes the white space and line terminators of ECMAScript at
  both ends. Among the code units below 256, which are the values of \<^typ>\<open>char\<close>, these are
  the tab, line feed, vertical tab, form feed, carriage return, space and the no-break
  space U+00A0. The others (U+1680, U+2000 to U+200A, U+2028, U+2029, U+202F, U+205F, U+3000
  and U+FEFF) are code units that the model's texts cannot hold.
\<close>

definition is_space :: "char \<Rightarrow> bool" where
  "is_space c =
     (c \<in> set [CHR 0x09, CHR 0x0A, CHR 0x0B, CHR 0x0C, CHR 0x0D, CHR '' '', CHR 0xA0])"

definition trim :: "string \<Rightarrow> string" where
  "trim s = rev (dropWhile is_space (rev (dropWhile is_space s)))"

fun split_on :: "char \<Rightarrow> string \<Rightarrow> string list" where
  "split_on sep [] = [[]]"
| "split_on sep (c # cs) =
     (if c = sep then [] # split_on sep cs
      else (case split_on sep cs of
              [] \<Rightarrow> [[c]]
            | l # ls \<Rightarrow> (c # l) # ls))"

text \<open>
  \<^verbatim>\<open>parseInput\<close> takes the text of the file. \<^verbatim>\<open>line.split("")\<close> turns a line into
  the list of its characters, which the line already is here. \<open>None\<close> stands for the
  \<^verbatim>\<open>TypeError\<close> of \<^verbatim>\<open>grid[0].length\<close> on an empty array.
\<close>

definition parseInput :: "string \<Rightarrow> input option" where
  "parseInput text =
     (let lines = split_on (CHR 0x0A) (trim text);
          grid = map (\<lambda>line. line) lines
      in case grid of
           [] \<Rightarrow> None
         | row0 # _ \<Rightarrow> Some \<lparr>grid = grid, height = int (length grid), width = int (length row0)\<rparr>)"

subsection \<open>Flood fill\<close>

definition directions :: "(int \<times> int) list" where
  "directions = [(0, -1), (1, 0), (0, 1), (-1, 0)]"

definition inBounds :: "input \<Rightarrow> int \<Rightarrow> int \<Rightarrow> bool" where
  "inBounds G x y = (x \<ge> 0 \<and> x < width G \<and> y \<ge> 0 \<and> y < height G)"

text \<open>\<^verbatim>\<open>xs[i]\<close> on an array: \<open>None\<close> is \<^verbatim>\<open>undefined\<close>.\<close>

definition js_index :: "'a list \<Rightarrow> int \<Rightarrow> 'a option" where
  "js_index xs i = (if 0 \<le> i \<and> i < int (length xs) then Some (xs ! nat i) else None)"

text \<open>
  \<^verbatim>\<open>grid[y][x]\<close>: the outer \<open>None\<close> is the \<^verbatim>\<open>TypeError\<close> of indexing an undefined row, the
  inner one the value \<^verbatim>\<open>undefined\<close> of a row that is too short.
\<close>

definition grid_at :: "input \<Rightarrow> int \<Rightarrow> int \<Rightarrow> symbol option" where
  "grid_at G x y = (case js_index (grid G) y of None \<Rightarrow> None | Some row \<Rightarrow> Some (js_index row x))"

text \<open>
  \<^verbatim>\<open>visited[y][x]\<close> and \<^verbatim>\<open>visited[y][x] = true\<close>. The matrix is allocated with \<^verbatim>\<open>height\<close>
  rows of \<^verbatim>\<open>width\<close> entries; a read outside it is \<open>None\<close>, and the matrix is only written
  where it has just been read.
\<close>

definition visited_at :: "bool list list \<Rightarrow> int \<Rightarrow> int \<Rightarrow> bool option" where
  "visited_at visited x y = (case js_index visited y of None \<Rightarrow> None | Some row \<Rightarrow> js_index row x)"

definition mark_visited :: "bool list list \<Rightarrow> int \<Rightarrow> int \<Rightarrow> bool list list" where
  "mark_visited visited x y = visited[nat y := (visited ! nat y)[nat x := True]]"

text \<open>\<^verbatim>\<open>forEach\<close> and \<^verbatim>\<open>for\<close> loops whose body updates a state and may fail.\<close>

fun for_each :: "'a list \<Rightarrow> ('a \<Rightarrow> 's \<Rightarrow> 's option) \<Rightarrow> 's \<Rightarrow> 's option" where
  "for_each [] body s = Some s"
| "for_each (a # as) body s = (case body a s of None \<Rightarrow> None | Some s' \<Rightarrow> for_each as body s')"

type_synonym fill_state = "bool list list \<times> Cell list \<times> Cell list"

text \<open>
  The body of \<^verbatim>\<open>directions.forEach\<close> inside the breadth-first search: the state is the
  \<^verbatim>\<open>visited\<close> matrix, the region's \<^verbatim>\<open>cells\<close> and the \<^verbatim>\<open>queue\<close>.
\<close>

definition visit :: "input \<Rightarrow> symbol \<Rightarrow> Cell \<Rightarrow> int \<times> int \<Rightarrow> fill_state \<Rightarrow> fill_state option" where
  "visit G character c d s =
     (case (c, d, s) of ((cx, cy), (dx, dy), (visited, cs, queue)) \<Rightarrow>
        let nx = cx + dx; ny = cy + dy in
        if \<not> inBounds G nx ny then Some s
        else (case visited_at visited nx ny of
                None \<Rightarrow> None
              | Some True \<Rightarrow> Some s
              | Some False \<Rightarrow>
                  (case grid_at G nx ny of
                     None \<Rightarrow> None
                   | Some neighbour \<Rightarrow>
                       if neighbour = character
                       then Some (mark_visited visited nx ny, cs @ [(nx, ny)], queue @ [(nx, ny)])
                       else Some s)))"

text \<open>
  The \<^verbatim>\<open>while (queue.length)\<close> loop ends because every cell pushed on the queue was unvisited
  before: the number of unvisited entries plus the length of the queue decreases.
\<close>

definition unvisited :: "bool list list \<Rightarrow> nat" where
  "unvisited visited = length (filter Not (concat visited))"

lemma js_index_Some: "js_index xs i = Some v \<longleftrightarrow> 0 \<le> i \<and> nat i < length xs \<and> xs ! nat i = v"
  by (auto simp: js_index_def)

lemma filter_Not_update:
  "i < length r \<Longrightarrow> \<not> r ! i \<Longrightarrow> Suc (length (filter Not (r[i := True]))) = length (filter Not r)"
proof (induction r arbitrary: i)
  case Nil then show ?case by simp
next
  case (Cons a r) then show ?case by (cases i) auto
qed

lemma unvisited_mark:
  assumes "visited_at v x y = Some False"
  shows "Suc (unvisited (mark_visited v x y)) = unvisited v"
proof -
  from assms obtain row where r: "0 \<le> y" "nat y < length v" "v ! nat y = row" "0 \<le> x" "nat x < length row" "\<not> row ! nat x"
    by (auto simp: visited_at_def js_index_Some split: option.splits)
  have "\<And>j. j < length v \<Longrightarrow> \<not> v ! j ! nat x \<Longrightarrow> nat x < length (v ! j) \<Longrightarrow>
    Suc (length (filter Not (concat (v[j := (v ! j)[nat x := True]])))) = length (filter Not (concat v))"
  proof (induction v)
    case Nil then show ?case by simp
  next
    case (Cons a v)
    show ?case
    proof (cases j)
      case 0
      with Cons.prems filter_Not_update[of "nat x" a] show ?thesis by simp
    next
      case (Suc k)
      with Cons show ?thesis by simp
    qed
  qed
  from this[of "nat y"] r show ?thesis by (simp add: unvisited_def mark_visited_def)
qed

lemma visit_measure:
  "visit G ch c d (v, cs, q) = Some (v', cs', q') \<Longrightarrow> unvisited v' + length q' = unvisited v + length q"
  using unvisited_mark
  by (cases c; cases d) (auto simp: visit_def Let_def split: if_splits option.splits bool.splits)

lemma for_each_visit_measure:
  "for_each ds (visit G ch c) (v, cs, q) = Some (v', cs', q') \<Longrightarrow> unvisited v' + length q' = unvisited v + length q"
proof (induction ds arbitrary: v cs q)
  case Nil then show ?case by simp
next
  case (Cons d ds)
  then show ?case
    by (auto split: option.splits dest!: visit_measure)
qed

function bfs :: "input \<Rightarrow> symbol \<Rightarrow> bool list list \<Rightarrow> Cell list \<Rightarrow> Cell list \<Rightarrow> (bool list list \<times> Cell list) option" where
  "bfs G character visited cs [] = Some (visited, cs)"
| "bfs G character visited cs (c # queue) =
     (case for_each directions (visit G character c) (visited, cs, queue) of
        None \<Rightarrow> None
      | Some (visited', cs', queue') \<Rightarrow> bfs G character visited' cs' queue')"
  by pat_completeness auto
termination
  by (relation "measure (\<lambda>(G, ch, v, cs, q). unvisited v + length q)")
     (auto dest: for_each_visit_measure)

text \<open>
  The body of the two nested \<^verbatim>\<open>for\<close> loops of \<^verbatim>\<open>findRegions\<close>, for the cell \<open>(x, y)\<close>: the state
  is the \<^verbatim>\<open>visited\<close> matrix and the list \<^verbatim>\<open>regions\<close>.
\<close>

type_synonym scan_state = "bool list list \<times> Region list"

definition scan_cell :: "input \<Rightarrow> int \<Rightarrow> int \<Rightarrow> scan_state \<Rightarrow> scan_state option" where
  "scan_cell G y x s =
     (case s of (visited, regions) \<Rightarrow>
        (case visited_at visited x y of
           None \<Rightarrow> None
         | Some True \<Rightarrow> Some s
         | Some False \<Rightarrow>
             (let visited1 = mark_visited visited x y in
              case grid_at G x y of
                None \<Rightarrow> None
              | Some character \<Rightarrow>
                  (case bfs G character visited1 [(x, y)] [(x, y)] of
                     None \<Rightarrow> None
                   | Some (visited2, cs) \<Rightarrow>
                       Some (visited2, regions @ [\<lparr>cells = cs, char = character\<rparr>])))))"

definition findRegions :: "input \<Rightarrow> Region list option" where
  "findRegions G =
     (let visited = replicate (nat (height G)) (replicate (nat (width G)) False) in
      case for_each [0 .. height G - 1] (\<lambda>y. for_each [0 .. width G - 1] (scan_cell G y)) (visited, []) of
        None \<Rightarrow> None
      | Some (visited', regions) \<Rightarrow> Some regions)"


subsection \<open>Coordinate keys\<close>

text \<open>
  \<^verbatim>\<open>coordinateKey\<close> prints both numbers in decimal, \<^verbatim>\<open>parseCoordinateKey\<close> reads them back
  with \<^verbatim>\<open>Number\<close>. Of \<^verbatim>\<open>Number\<close> only decimal integers with an optional minus sign are
  modelled (the empty string is 0); \<open>None\<close> is \<^verbatim>\<open>NaN\<close> or a form of number that a
  coordinate key never has.
\<close>

definition digit_char :: "nat \<Rightarrow> char" where
  "digit_char d = char_of (48 + d)"

fun show_nat :: "nat \<Rightarrow> string" where
  "show_nat n = (if n < 10 then [digit_char n] else show_nat (n div 10) @ [digit_char (n mod 10)])"

declare show_nat.simps [simp del]

definition show_int :: "int \<Rightarrow> string" where
  "show_int i = (if i < 0 then CHR ''-'' # show_nat (nat (- i)) else show_nat (nat i))"

definition coordinateKey :: "int \<Rightarrow> int \<Rightarrow> string" where
  "coordinateKey x y = show_int x @ '','' @ show_int y"

definition digit_val :: "char \<Rightarrow> nat option" where
  "digit_val c = (let n = (of_char c :: nat) in if 48 \<le> n \<and> n \<le> 57 then Some (n - 48) else None)"

fun parse_digits :: "nat \<Rightarrow> string \<Rightarrow> nat option" where
  "parse_digits acc [] = Some acc"
| "parse_digits acc (c # cs) =
     (case digit_val c of None \<Rightarrow> None | Some d \<Rightarrow> parse_digits (10 * acc + d) cs)"

definition Number :: "string \<Rightarrow> int option" where
  "Number s =
     (case s of
        [] \<Rightarrow> Some 0
      | c # cs \<Rightarrow>
          if c = CHR ''-''
          then (if cs = [] then None else map_option (\<lambda>n. - int n) (parse_digits 0 cs))
          else map_option int (parse_digits 0 s))"

definition parseCoordinateKey :: "string \<Rightarrow> (int \<times> int) option" where
  "parseCoordinateKey key =
     (case split_on (CHR '','') key of
        xs # ys # _ \<Rightarrow>
          (case Number xs of
             None \<Rightarrow> None
           | Some x \<Rightarrow> (case Number ys of None \<Rightarrow> None | Some y \<Rightarrow> Some (x, y)))
      | _ \<Rightarrow> None)"


subsection \<open>Perimeter\<close>

definition computePerimeter :: "input \<Rightarrow> Region \<Rightarrow> nat" where
  "computePerimeter G region =
     (let cellSet = set (map (\<lambda>(x, y). coordinateKey x y) (cells region)) in
      fold (\<lambda>(x, y). fold (\<lambda>(dx, dy) perimeter.
              let nx = x + dx; ny = y + dy in
              if \<not> inBounds G nx ny \<or> coordinateKey nx ny \<notin> cellSet
              then perimeter + 1 else perimeter) directions)
        (cells region) 0)"

subsection \<open>Union-find\<close>

text \<open>
  The closure returned by \<^verbatim>\<open>createUnionFind\<close> owns the two tables \<^verbatim>\<open>parent\<close> and \<^verbatim>\<open>size\<close>;
  they are the state that \<^verbatim>\<open>find\<close>, \<^verbatim>\<open>union\<close> and \<^verbatim>\<open>countComponents\<close> take and return.
  The loop of \<^verbatim>\<open>find\<close> ends only on a table without cycles, so it is a partial function.
\<close>

record 'k UnionFind =
  parent :: "'k \<rightharpoonup> 'k"
  sizes :: "'k \<rightharpoonup> nat"

definition createUnionFind :: "'k list \<Rightarrow> 'k UnionFind" where
  "createUnionFind elements =
     fold (\<lambda>e uf. \<lparr>parent = (parent uf)(e \<mapsto> e), sizes = (sizes uf)(e \<mapsto> 1)\<rparr>)
       elements \<lparr>parent = Map.empty, sizes = Map.empty\<rparr>"

partial_function (option) uf_find :: "('k \<rightharpoonup> 'k) \<Rightarrow> 'k \<Rightarrow> ('k \<times> ('k \<rightharpoonup> 'k)) option" where
  "uf_find par p =
     (case par p of
        None \<Rightarrow> None
      | Some pp \<Rightarrow>
          if p = pp then Some (p, par)
          else (case par pp of
                  None \<Rightarrow> None
                | Some gp \<Rightarrow> uf_find (par(p \<mapsto> gp)) gp))"

declare uf_find.simps [code]

definition uf_union :: "'k \<Rightarrow> 'k \<Rightarrow> 'k UnionFind \<Rightarrow> 'k UnionFind option" where
  "uf_union a b uf =
     (case uf_find (parent uf) a of
        None \<Rightarrow> None
      | Some (rootA, par1) \<Rightarrow>
          (case uf_find par1 b of
             None \<Rightarrow> None
           | Some (rootB, par2) \<Rightarrow>
               if rootA \<noteq> rootB then
                 (case sizes uf rootA of
                    None \<Rightarrow> None
                  | Some sizeA \<Rightarrow>
                      (case sizes uf rootB of
                         None \<Rightarrow> None
                       | Some sizeB \<Rightarrow>
                           if sizeA < sizeB
                           then Some \<lparr>parent = par2(rootA \<mapsto> rootB),
                                      sizes = (sizes uf)(rootB \<mapsto> sizeB + sizeA)\<rparr>
                           else Some \<lparr>parent = par2(rootB \<mapsto> rootA),
                                      sizes = (sizes uf)(rootA \<mapsto> sizeA + sizeB)\<rparr>))
               else Some \<lparr>parent = par2, sizes = sizes uf\<rparr>))"

text \<open>\<^verbatim>\<open>elements.map(find)\<close>: each call sees the table as the previous one left it.\<close>

fun find_all :: "'k list \<Rightarrow> ('k \<rightharpoonup> 'k) \<Rightarrow> ('k list \<times> ('k \<rightharpoonup> 'k)) option" where
  "find_all [] par = Some ([], par)"
| "find_all (e # es) par =
     (case uf_find par e of
        None \<Rightarrow> None
      | Some (r, par') \<Rightarrow>
          (case find_all es par' of
             None \<Rightarrow> None
           | Some (rs, par'') \<Rightarrow> Some (r # rs, par'')))"

definition countComponents :: "'k list \<Rightarrow> 'k UnionFind \<Rightarrow> nat option" where
  "countComponents elements uf =
     (case find_all elements (parent uf) of
        None \<Rightarrow> None
      | Some (roots, par') \<Rightarrow> Some (card (set roots)))"

subsection \<open>Sides\<close>

text \<open>
  \<^verbatim>\<open>if (positionSet.has(other)) uf.union(position, other)\<close>, and the body of
  \<^verbatim>\<open>edgePositions.forEach\<close> in \<^verbatim>\<open>groupEdgeSegments\<close>.
\<close>

definition union_if_present :: "string set \<Rightarrow> string \<Rightarrow> string \<Rightarrow> string UnionFind \<Rightarrow> string UnionFind option" where
  "union_if_present positionSet position other uf =
     (if other \<in> positionSet then uf_union position other uf else Some uf)"

definition connect_position :: "string set \<Rightarrow> bool \<Rightarrow> string \<Rightarrow> string UnionFind \<Rightarrow> string UnionFind option" where
  "connect_position positionSet isVertical position uf =
     (case parseCoordinateKey position of
        None \<Rightarrow> None
      | Some (x, y) \<Rightarrow>
          if isVertical then
            (let up = coordinateKey x (y - 1); down = coordinateKey x (y + 1) in
             case union_if_present positionSet position up uf of
               None \<Rightarrow> None
             | Some uf1 \<Rightarrow> union_if_present positionSet position down uf1)
          else
            (let left = coordinateKey (x - 1) y; right = coordinateKey (x + 1) y in
             case union_if_present positionSet position left uf of
               None \<Rightarrow> None
             | Some uf1 \<Rightarrow> union_if_present positionSet position right uf1))"

definition groupEdgeSegments :: "string list \<Rightarrow> bool \<Rightarrow> nat option" where
  "groupEdgeSegments edgePositions isVertical =
     (if edgePositions = [] then Some 0
      else
        (let uf = createUnionFind edgePositions;
             positionSet = set edgePositions
         in case for_each edgePositions (connect_position positionSet isVertical) uf of
              None \<Rightarrow> None
            | Some uf' \<Rightarrow> countComponents edgePositions uf'))"

text \<open>
  The first half of \<^verbatim>\<open>computeSides\<close>: the four lists of keys of the cells with a left, right,
  top and bottom boundary edge.
\<close>

type_synonym edge_lists = "string list \<times> string list \<times> string list \<times> string list"

definition collectEdges :: "Region \<Rightarrow> edge_lists" where
  "collectEdges region =
     (let cellSet = set (map (\<lambda>(x, y). coordinateKey x y) (cells region)) in
      fold (\<lambda>(x, y) (leftEdges, rightEdges, topEdges, bottomEdges).
              let key = coordinateKey x y in
              (if coordinateKey (x - 1) y \<notin> cellSet then leftEdges @ [key] else leftEdges,
               if coordinateKey (x + 1) y \<notin> cellSet then rightEdges @ [key] else rightEdges,
               if coordinateKey x (y - 1) \<notin> cellSet then topEdges @ [key] else topEdges,
               if coordinateKey x (y + 1) \<notin> cellSet then bottomEdges @ [key] else bottomEdges))
        (cells region) ([], [], [], []))"

definition computeSides :: "Region \<Rightarrow> nat option" where
  "computeSides region =
     (case collectEdges region of (leftEdges, rightEdges, topEdges, bottomEdges) \<Rightarrow>
        (case groupEdgeSegments leftEdges True of None \<Rightarrow> None | Some l \<Rightarrow>
        (case groupEdgeSegments rightEdges True of None \<Rightarrow> None | Some r \<Rightarrow>
        (case groupEdgeSegments topEdges False of None \<Rightarrow> None | Some t \<Rightarrow>
        (case groupEdgeSegments bottomEdges False of None \<Rightarrow> None | Some b \<Rightarrow>
           Some (l + r + t + b))))))"

subsection \<open>The two totals\<close>

definition part1 :: "input \<Rightarrow> Region list \<Rightarrow> nat" where
  "part1 G regions =
     fold (\<lambda>region total. total + length (cells region) * computePerimeter G region) regions 0"

definition part2 :: "Region list \<Rightarrow> nat option" where
  "part2 regions =
     for_each regions
       (\<lambda>region total.
          case computeSides region of
            None \<Rightarrow> None
          | Some sides \<Rightarrow> Some (total + length (cells region) * sides))
       0"

text \<open>The script: the grid is read, segmented once, and both totals are printed.\<close>

definition solve :: "input \<Rightarrow> (nat \<times> nat) option" where
  "solve G =
     (case findRegions G of
        None \<Rightarrow> None
      | Some regions \<Rightarrow>
          (case part2 regions of
             None \<Rightarrow> None
           | Some total2 \<Rightarrow> Some (part1 G regions, total2)))"

definition main :: "string \<Rightarrow> (nat \<times> nat) option" where
  "main text = (case parseInput text of None \<Rightarrow> None | Some G \<Rightarrow> solve G)"

section \<open>The vocabulary of the specification\<close>

subsection \<open>Grids\<close>

text \<open>The cells of the grid are the coordinates that \<open>inBounds\<close> accepts.\<close>

definition grid_cells :: "input \<Rightarrow> Cell set" where
  "grid_cells G = {(x, y). inBounds G x y}"

text \<open>
  A well-formed grid has at least one row, all rows have the same positive length, and
  \<open>height\<close> and \<open>width\<close> are the dimensions of the grid, as \<open>parseInput\<close> sets them.
\<close>

definition well_formed :: "input \<Rightarrow> bool" where
  "well_formed G \<longleftrightarrow>
     grid G \<noteq> [] \<and> height G = int (length (grid G)) \<and> 0 < width G \<and>
     (\<forall>row \<in> set (grid G). int (length row) = width G)"

definition all_distinct :: "input \<Rightarrow> bool" where
  "all_distinct G \<longleftrightarrow>
     (\<forall>c1 \<in> grid_cells G. \<forall>c2 \<in> grid_cells G.
        grid_at G (fst c1) (snd c1) = grid_at G (fst c2) (snd c2) \<longrightarrow> c1 = c2)"

definition uniform :: "input \<Rightarrow> bool" where
  "uniform G \<longleftrightarrow> (\<exists>s. \<forall>c \<in> grid_cells G. grid_at G (fst c) (snd c) = Some (Some s))"

text \<open>
  The rows that \<open>parseInput\<close> reads from a text, and the inputs the specification calls
  malformed: an empty text, or rows of unequal length.
\<close>

definition rows_of :: "string \<Rightarrow> string list" where
  "rows_of text = split_on (CHR 0x0A) (trim text)"

definition malformed :: "string \<Rightarrow> bool" where
  "malformed text \<longleftrightarrow>
     trim text = [] \<or> (\<exists>row \<in> set (rows_of text). length row \<noteq> length (hd (rows_of text)))"

subsection \<open>Boundary edges, pairs of neighbours and sides\<close>

text \<open>
  A cell of a region has a boundary edge in direction \<open>d\<close> when its neighbour in that
  direction is not in the region.
\<close>

definition exposed :: "Cell set \<Rightarrow> int \<times> int \<Rightarrow> Cell \<Rightarrow> bool" where
  "exposed S d c \<longleftrightarrow> (fst c + fst d, snd c + snd d) \<notin> S"

definition boundary :: "Cell set \<Rightarrow> int \<times> int \<Rightarrow> Cell set" where
  "boundary S d = {c \<in> S. exposed S d c}"

text \<open>The unordered pairs of region cells that are 4-neighbours of each other.\<close>

definition neighbours4 :: "Cell \<Rightarrow> Cell \<Rightarrow> bool" where
  "neighbours4 a b \<longleftrightarrow> \<bar>fst a - fst b\<bar> + \<bar>snd a - snd b\<bar> = 1"

definition internalAdjacentPairs :: "Region \<Rightarrow> nat" where
  "internalAdjacentPairs r =
     card {{a, b} |a b. a \<in> set (cells r) \<and> b \<in> set (cells r) \<and> neighbours4 a b}"

text \<open>
  Two boundary cells of one orientation are adjacent along the boundary line: vertically
  for left and right edges (\<open>isVertical\<close>), horizontally for top and bottom edges. A side is
  a connected component of that adjacency within the set of boundary cells of the
  orientation; \<open>side_count\<close> is the number of components.
\<close>

definition side_adjacent :: "bool \<Rightarrow> Cell \<Rightarrow> Cell \<Rightarrow> bool" where
  "side_adjacent isVertical a b \<longleftrightarrow>
     (if isVertical then fst a = fst b \<and> \<bar>snd a - snd b\<bar> = 1
      else snd a = snd b \<and> \<bar>fst a - fst b\<bar> = 1)"

definition same_side :: "Cell set \<Rightarrow> bool \<Rightarrow> (Cell \<times> Cell) set" where
  "same_side B isVertical = {(a, b). a \<in> B \<and> b \<in> B \<and> side_adjacent isVertical a b}\<^sup>*"

definition side_count :: "Cell set \<Rightarrow> bool \<Rightarrow> nat" where
  "side_count B isVertical = card (B // same_side B isVertical)"

definition sides_spec :: "Region \<Rightarrow> nat" where
  "sides_spec r =
     (let S = set (cells r) in
      side_count (boundary S (-1, 0)) True + side_count (boundary S (1, 0)) True +
      side_count (boundary S (0, -1)) False + side_count (boundary S (0, 1)) False)"

subsection \<open>Shapes\<close>

definition rect :: "int \<Rightarrow> int \<Rightarrow> int \<Rightarrow> int \<Rightarrow> Cell set" where
  "rect x0 y0 w h = {(x, y). x0 \<le> x \<and> x < x0 + w \<and> y0 \<le> y \<and> y < y0 + h}"

text \<open>
  The four orientations with the axis of their boundary lines. A region has a long run when
  two boundary cells of one orientation are adjacent along the line; it is concave when a
  cell outside it has a horizontal and a vertical neighbour inside it.
\<close>

definition orientations :: "((int \<times> int) \<times> bool) list" where
  "orientations = [((-1, 0), True), ((1, 0), True), ((0, -1), False), ((0, 1), False)]"

definition has_long_run :: "Cell set \<Rightarrow> bool" where
  "has_long_run S \<longleftrightarrow>
     (\<exists>(d, v) \<in> set orientations. \<exists>a b. a \<in> boundary S d \<and> b \<in> boundary S d \<and> side_adjacent v a b)"

definition concave :: "Cell set \<Rightarrow> bool" where
  "concave S \<longleftrightarrow>
     (\<exists>x y. (x, y) \<notin> S \<and> ((x - 1, y) \<in> S \<or> (x + 1, y) \<in> S) \<and> ((x, y - 1) \<in> S \<or> (x, y + 1) \<in> S))"

subsection \<open>Sample grids\<close>

definition G_AB :: input where
  "G_AB = \<lparr>grid = [''AB''], height = 1, width = 2\<rparr>"

definition G_AA :: input where
  "G_AA = \<lparr>grid = [''AA''], height = 1, width = 2\<rparr>"

definition G_L :: input where
  "G_L = \<lparr>grid = [''AB'', ''AA''], height = 2, width = 2\<rparr>"

definition R_A :: Region where
  "R_A = \<lparr>cells = [(0, 0)], char = Some CHR ''A''\<rparr>"

definition R_B :: Region where
  "R_B = \<lparr>cells = [(1, 0)], char = Some CHR ''B''\<rparr>"

definition R_AA :: Region where
  "R_AA = \<lparr>cells = [(0, 0), (1, 0)], char = Some CHR ''A''\<rparr>"

definition R_L :: Region where
  "R_L = \<lparr>cells = [(0, 0), (0, 1), (1, 1)], char = Some CHR ''A''\<rparr>"

definition ragged_text :: string where
  "ragged_text = ''AB'' @ [CHR 0x0A] @ ''A''"

text \<open>A text that starts with a no-break space and ends with a line feed.\<close>

definition padded_text :: string where
  "padded_text = [CHR 0xA0] @ ''A'' @ [CHR 0x0A]"

section \<open>Flood fill: invariants\<close>

definition dims_ok :: "input \<Rightarrow> bool" where
  "dims_ok G \<longleftrightarrow> height G = int (length (grid G))"

definition vis_ok :: "input \<Rightarrow> bool list list \<Rightarrow> bool" where
  "vis_ok G v \<longleftrightarrow> length v = nat (height G) \<and> (\<forall>row \<in> set v. length row = nat (width G))"

definition vset :: "bool list list \<Rightarrow> Cell set" where
  "vset v = {(x, y). visited_at v x y = Some True}"

lemma visited_at_inBounds:
  assumes "vis_ok G v" "inBounds G x y"
  shows "\<exists>b. visited_at v x y = Some b"
  using assms by (auto simp: vis_ok_def inBounds_def visited_at_def js_index_def)

lemma vis_ok_mark:
  assumes "vis_ok G v"
  shows "vis_ok G (mark_visited v x y)"
proof (cases "nat y < length v")
  case True
  then have "v ! nat y \<in> set v" by simp
  with assms have len: "length ((v ! nat y)[nat x := True]) = nat (width G)"
    by (simp add: vis_ok_def)
  have "set (v[nat y := (v ! nat y)[nat x := True]]) \<subseteq> insert ((v ! nat y)[nat x := True]) (set v)"
    by (rule set_update_subset_insert)
  with assms len show ?thesis
    unfolding vis_ok_def mark_visited_def by auto
next
  case False
  with assms show ?thesis by (simp add: mark_visited_def list_update_beyond)
qed

lemma js_index_update:
  assumes "0 \<le> i"
  shows "js_index (xs[nat i := a]) j = (if j = i \<and> nat i < length xs then Some a else js_index xs j)"
proof (cases "j = i")
  case True
  with assms show ?thesis by (auto simp: js_index_def)
next
  case False
  show ?thesis
  proof (cases "0 \<le> j")
    case True
    with False assms have "nat i \<noteq> nat j" by auto
    with False show ?thesis by (simp add: js_index_def)
  next
    case F: False
    with False show ?thesis by (simp add: js_index_def)
  qed
qed

lemma visited_at_mark:
  assumes "vis_ok G v" "inBounds G x y"
  shows "visited_at (mark_visited v x y) x' y' =
         (if x' = x \<and> y' = y then Some True else visited_at v x' y')"
proof -
  from assms have y: "0 \<le> y" "nat y < length v"
    by (auto simp: vis_ok_def inBounds_def)
  then have "v ! nat y \<in> set v" by simp
  with assms have x: "0 \<le> x" "nat x < length (v ! nat y)"
    by (auto simp: vis_ok_def inBounds_def)
  from y have row: "js_index v y = Some (v ! nat y)" by (simp add: js_index_def)
  show ?thesis
    unfolding visited_at_def mark_visited_def
    using row x(2) by (simp add: js_index_update[OF y(1)] js_index_update[OF x(1)] y(2))
qed

lemma vset_mark:
  assumes "vis_ok G v" "inBounds G x y"
  shows "vset (mark_visited v x y) = insert (x, y) (vset v)"
  using visited_at_mark[OF assms] by (auto simp: vset_def)

lemma grid_at_inBounds:
  assumes "dims_ok G" "inBounds G x y"
  shows "\<exists>s. grid_at G x y = Some s"
  using assms by (auto simp: dims_ok_def inBounds_def grid_at_def js_index_def)

lemma for_each_rule:
  assumes "I pre s"
    and "\<And>pre a s. I pre s \<Longrightarrow> a \<in> set as \<Longrightarrow> \<exists>s'. body a s = Some s' \<and> I (pre @ [a]) s'"
  shows "\<exists>s'. for_each as body s = Some s' \<and> I (pre @ as) s'"
  using assms
proof (induction as arbitrary: pre s)
  case Nil
  then show ?case by simp
next
  case (Cons a as)
  from Cons.prems(2)[OF Cons.prems(1), of a] obtain s1 where s1: "body a s = Some s1" "I (pre @ [a]) s1"
    by auto
  have "\<exists>s'. for_each as body s1 = Some s' \<and> I ((pre @ [a]) @ as) s'"
    by (rule Cons.IH[OF s1(2)]) (use Cons.prems(2) in auto)
  with s1 show ?case by simp
qed

lemma for_each_invariant:
  assumes "I s"
    and "\<And>a s. I s \<Longrightarrow> a \<in> set as \<Longrightarrow> \<exists>s'. body a s = Some s' \<and> I s'"
  shows "\<exists>s'. for_each as body s = Some s' \<and> I s'"
  using for_each_rule[where I = "\<lambda>_. I" and pre = "[]", OF assms(1)] assms(2) by blast

definition fill_inv :: "input \<Rightarrow> symbol \<Rightarrow> Cell set \<Rightarrow> Cell set \<Rightarrow> fill_state \<Rightarrow> bool" where
  "fill_inv G ch V0 C0 s \<longleftrightarrow>
     (case s of (v, cs, q) \<Rightarrow>
        vis_ok G v \<and> vset v = V0 \<union> set cs \<and> V0 \<inter> set cs = {} \<and> distinct cs \<and> C0 \<subseteq> set cs \<and>
        set q \<subseteq> set cs \<and>
        (\<forall>(x, y) \<in> set cs. inBounds G x y \<and> grid_at G x y = Some ch))"

lemma visit_fill_inv:
  assumes "dims_ok G" "fill_inv G ch V0 C0 s"
  shows "\<exists>s'. visit G ch c d s = Some s' \<and> fill_inv G ch V0 C0 s'"
proof -
  obtain cx cy dx dy v cs q where [simp]: "c = (cx, cy)" "d = (dx, dy)" "s = (v, cs, q)"
    by (cases c; cases d; cases s) auto
  let ?nx = "cx + dx" and ?ny = "cy + dy"
  from assms(2) have inv: "vis_ok G v" "vset v = V0 \<union> set cs" "V0 \<inter> set cs = {}" "distinct cs"
    "set q \<subseteq> set cs" "C0 \<subseteq> set cs"
    "\<forall>(x, y) \<in> set cs. inBounds G x y \<and> grid_at G x y = Some ch"
    by (auto simp: fill_inv_def)
  show ?thesis
  proof (cases "inBounds G ?nx ?ny")
    case False
    with assms(2) show ?thesis by (simp add: visit_def)
  next
    case True
    from visited_at_inBounds[OF inv(1) True] obtain b where b: "visited_at v ?nx ?ny = Some b" by blast
    from grid_at_inBounds[OF assms(1) True] obtain nb where nb: "grid_at G ?nx ?ny = Some nb" by blast
    show ?thesis
    proof (cases "b \<or> nb \<noteq> ch")
      case True
      with b nb \<open>inBounds G ?nx ?ny\<close> assms(2) show ?thesis
        by (auto simp: visit_def Let_def split: bool.splits)
    next
      case False
      then have nv: "\<not> b" and eq: "nb = ch" by auto
      from b nv have notin: "(?nx, ?ny) \<notin> vset v" by (simp add: vset_def)
      from notin inv(2) have notin': "(?nx, ?ny) \<notin> V0" "(?nx, ?ny) \<notin> set cs" by auto
      have "fill_inv G ch V0 C0 (mark_visited v ?nx ?ny, cs @ [(?nx, ?ny)], q @ [(?nx, ?ny)])"
        unfolding fill_inv_def prod.case
      proof (intro conjI)
        show "vis_ok G (mark_visited v ?nx ?ny)" by (rule vis_ok_mark[OF inv(1)])
        show "vset (mark_visited v ?nx ?ny) = V0 \<union> set (cs @ [(?nx, ?ny)])"
          using vset_mark[OF inv(1) True] inv(2) by auto
        show "V0 \<inter> set (cs @ [(?nx, ?ny)]) = {}" using inv(3) notin' by auto
        show "distinct (cs @ [(?nx, ?ny)])" using inv(4) notin' by simp
        show "set (q @ [(?nx, ?ny)]) \<subseteq> set (cs @ [(?nx, ?ny)])" using inv(5) by auto
        show "C0 \<subseteq> set (cs @ [(?nx, ?ny)])" using inv(6) by auto
        show "\<forall>(x, y) \<in> set (cs @ [(?nx, ?ny)]). inBounds G x y \<and> grid_at G x y = Some ch"
          using inv(7) True nb eq by auto
      qed
      with b nv nb eq True show ?thesis
        by (simp add: visit_def Let_def)
    qed
  qed
qed

lemma bfs_fill_inv:
  assumes "dims_ok G" "fill_inv G ch V0 C0 (v, cs, q)"
  shows "\<exists>v' cs'. bfs G ch v cs q = Some (v', cs') \<and> fill_inv G ch V0 C0 (v', cs', [])"
  using assms
proof (induction G ch v cs q rule: bfs.induct)
  case (1 G character visited cs)
  then show ?case by simp
next
  case (2 G character visited cs c queue)
  from "2.prems" have "fill_inv G character V0 C0 (visited, cs, queue)"
    by (auto simp: fill_inv_def)
  then have "\<exists>s'. for_each directions (visit G character c) (visited, cs, queue) = Some s' \<and> fill_inv G character V0 C0 s'"
    by (rule for_each_invariant) (rule visit_fill_inv[OF "2.prems"(1)])
  then obtain v1 cs1 q1 where s1: "for_each directions (visit G character c) (visited, cs, queue) = Some (v1, cs1, q1)"
    "fill_inv G character V0 C0 (v1, cs1, q1)"
    by (metis prod_cases3)
  from "2.IH"[OF s1(1) refl refl "2.prems"(1) s1(2)] s1(1) show ?case by simp
qed

definition regions_inv :: "input \<Rightarrow> scan_state \<Rightarrow> bool" where
  "regions_inv G s \<longleftrightarrow>
     (case s of (v, rs) \<Rightarrow>
        vis_ok G v \<and> vset v = set (concat (map cells rs)) \<and> distinct (concat (map cells rs)) \<and>
        (\<forall>r \<in> set rs. cells r \<noteq> [] \<and>
           (\<forall>(x, y) \<in> set (cells r). inBounds G x y \<and> grid_at G x y = Some (char r))))"

lemma scan_cell_inv:
  assumes "dims_ok G" "inBounds G x y" "regions_inv G (v, rs)"
  shows "\<exists>v' rs'. scan_cell G y x (v, rs) = Some (v', rs') \<and> regions_inv G (v', rs') \<and>
           (x, y) \<in> vset v' \<and> vset v \<subseteq> vset v'"
proof -
  from assms(3) have inv: "vis_ok G v" "vset v = set (concat (map cells rs))"
    "distinct (concat (map cells rs))"
    "\<forall>r \<in> set rs. cells r \<noteq> [] \<and> (\<forall>(x, y) \<in> set (cells r). inBounds G x y \<and> grid_at G x y = Some (char r))"
    by (auto simp: regions_inv_def)
  from visited_at_inBounds[OF inv(1) assms(2)] obtain b where b: "visited_at v x y = Some b" by blast
  show ?thesis
  proof (cases b)
    case True
    with b assms(3) show ?thesis by (simp add: scan_cell_def vset_def)
  next
    case False
    from grid_at_inBounds[OF assms(1,2)] obtain ch where ch: "grid_at G x y = Some ch" by blast
    from b False have notin: "(x, y) \<notin> vset v" by (simp add: vset_def)
    have "fill_inv G ch (vset v) {(x, y)} (mark_visited v x y, [(x, y)], [(x, y)])"
      unfolding fill_inv_def prod.case
      using vis_ok_mark[OF inv(1)] vset_mark[OF inv(1) assms(2)] notin assms(2) ch by auto
    from bfs_fill_inv[OF assms(1) this] obtain v2 cs where
      bfs: "bfs G ch (mark_visited v x y) [(x, y)] [(x, y)] = Some (v2, cs)" and
      f: "fill_inv G ch (vset v) {(x, y)} (v2, cs, [])"
      by blast
    from f have f': "vis_ok G v2" "vset v2 = vset v \<union> set cs" "vset v \<inter> set cs = {}" "distinct cs"
      "(x, y) \<in> set cs" "\<forall>(x, y) \<in> set cs. inBounds G x y \<and> grid_at G x y = Some ch"
      by (auto simp: fill_inv_def)
    have "regions_inv G (v2, rs @ [\<lparr>cells = cs, char = ch\<rparr>])"
      unfolding regions_inv_def prod.case
      using f' inv by auto
    moreover have "scan_cell G y x (v, rs) = Some (v2, rs @ [\<lparr>cells = cs, char = ch\<rparr>])"
      using b False ch bfs by (simp add: scan_cell_def)
    ultimately show ?thesis using f'(2,5) by auto
  qed
qed

lemma scan_row_inv:
  assumes "dims_ok G" "0 \<le> y" "y < height G" "regions_inv G (v, rs)"
  shows "\<exists>v' rs'. for_each [0 .. width G - 1] (scan_cell G y) (v, rs) = Some (v', rs') \<and>
           regions_inv G (v', rs') \<and> vset v \<subseteq> vset v' \<and> (\<forall>x \<in> {0 .. width G - 1}. (x, y) \<in> vset v')"
proof -
  let ?I = "\<lambda>pre s. regions_inv G s \<and> vset v \<subseteq> vset (fst s) \<and> (\<forall>x \<in> set pre. (x, y) \<in> vset (fst s))"
  have "\<exists>s'. for_each [0 .. width G - 1] (scan_cell G y) (v, rs) = Some s' \<and> ?I ([] @ [0 .. width G - 1]) s'"
  proof (rule for_each_rule[where I = ?I])
    show "?I [] (v, rs)" using assms(4) by simp
  next
    fix pre x s
    assume I: "?I pre s" and x: "x \<in> set [0 .. width G - 1]"
    obtain v1 rs1 where s: "s = (v1, rs1)" by (cases s)
    from x assms(2,3) have "inBounds G x y" by (simp add: inBounds_def)
    from scan_cell_inv[OF assms(1) this, of v1 rs1] I s
    obtain v2 rs2 where "scan_cell G y x (v1, rs1) = Some (v2, rs2)" "regions_inv G (v2, rs2)"
      "(x, y) \<in> vset v2" "vset v1 \<subseteq> vset v2"
      by auto
    with I s show "\<exists>s'. scan_cell G y x s = Some s' \<and> ?I (pre @ [x]) s'"
      by auto
  qed
  then show ?thesis by auto
qed

lemma scan_all_inv:
  assumes "dims_ok G"
  shows "\<exists>v' rs'. for_each [0 .. height G - 1] (\<lambda>y. for_each [0 .. width G - 1] (scan_cell G y))
             (replicate (nat (height G)) (replicate (nat (width G)) False), []) = Some (v', rs') \<and>
           regions_inv G (v', rs') \<and> grid_cells G \<subseteq> vset v'"
proof -
  let ?v0 = "replicate (nat (height G)) (replicate (nat (width G)) False)"
  let ?I = "\<lambda>pre s. regions_inv G s \<and> (\<forall>y \<in> set pre. \<forall>x \<in> {0 .. width G - 1}. (x, y) \<in> vset (fst s))"
  have v0: "vset ?v0 = {}"
    by (auto simp: vset_def visited_at_def js_index_def split: option.splits if_splits)
  have "\<exists>s'. for_each [0 .. height G - 1] (\<lambda>y. for_each [0 .. width G - 1] (scan_cell G y)) (?v0, []) = Some s' \<and>
          ?I ([] @ [0 .. height G - 1]) s'"
  proof (rule for_each_rule[where I = ?I])
    show "?I [] (?v0, [])" using v0 by (simp add: regions_inv_def vis_ok_def)
  next
    fix pre y s
    assume I: "?I pre s" and y: "y \<in> set [0 .. height G - 1]"
    obtain v1 rs1 where s: "s = (v1, rs1)" by (cases s)
    from y have "0 \<le> y" "y < height G" by auto
    from scan_row_inv[OF assms this, of v1 rs1] I s
    obtain v2 rs2 where "for_each [0 .. width G - 1] (scan_cell G y) (v1, rs1) = Some (v2, rs2)"
      "regions_inv G (v2, rs2)" "vset v1 \<subseteq> vset v2" "\<forall>x \<in> {0 .. width G - 1}. (x, y) \<in> vset v2"
      by auto
    with I s show "\<exists>s'. for_each [0 .. width G - 1] (scan_cell G y) s = Some s' \<and> ?I (pre @ [y]) s'"
      by auto
  qed
  then obtain v' rs' where r: "for_each [0 .. height G - 1] (\<lambda>y. for_each [0 .. width G - 1] (scan_cell G y)) (?v0, []) = Some (v', rs')"
    "regions_inv G (v', rs')" "\<forall>y \<in> {0 .. height G - 1}. \<forall>x \<in> {0 .. width G - 1}. (x, y) \<in> vset v'"
    by auto
  from r(3) have "grid_cells G \<subseteq> vset v'"
    by (auto simp: grid_cells_def inBounds_def)
  with r show ?thesis by blast
qed

lemma findRegions_total:
  assumes "dims_ok G"
  shows "\<exists>rs. findRegions G = Some rs"
  using scan_all_inv[OF assms] by (auto simp: findRegions_def)

lemma findRegions_inv:
  assumes "dims_ok G" "findRegions G = Some rs"
  shows "set (concat (map cells rs)) = grid_cells G"
    and "distinct (concat (map cells rs))"
    and "\<forall>r \<in> set rs. cells r \<noteq> [] \<and> (\<forall>(x, y) \<in> set (cells r). inBounds G x y \<and> grid_at G x y = Some (char r))"
proof -
  from scan_all_inv[OF assms(1)] assms(2) obtain v' where
    inv: "regions_inv G (v', rs)" and sub: "grid_cells G \<subseteq> vset v'"
    by (auto simp: findRegions_def)
  from inv show "distinct (concat (map cells rs))"
    and r: "\<forall>r \<in> set rs. cells r \<noteq> [] \<and> (\<forall>(x, y) \<in> set (cells r). inBounds G x y \<and> grid_at G x y = Some (char r))"
    by (auto simp: regions_inv_def)
  from inv have "vset v' = set (concat (map cells rs))" by (simp add: regions_inv_def)
  with sub r show "set (concat (map cells rs)) = grid_cells G"
    by (auto simp: grid_cells_def)
qed

subsection \<open>Regions are closed under same-symbol neighbours\<close>

definition handled :: "input \<Rightarrow> symbol \<Rightarrow> Cell set \<Rightarrow> Cell \<Rightarrow> int \<times> int \<Rightarrow> bool" where
  "handled G ch V c d \<longleftrightarrow>
     (inBounds G (fst c + fst d) (snd c + snd d) \<and> grid_at G (fst c + fst d) (snd c + snd d) = Some ch
      \<longrightarrow> (fst c + fst d, snd c + snd d) \<in> V)"

definition closed_under :: "input \<Rightarrow> symbol \<Rightarrow> Cell set \<Rightarrow> Cell set \<Rightarrow> bool" where
  "closed_under G ch D V \<longleftrightarrow> (\<forall>c \<in> D. \<forall>d \<in> set directions. handled G ch V c d)"

lemma handled_mono: "handled G ch V c d \<Longrightarrow> V \<subseteq> V' \<Longrightarrow> handled G ch V' c d"
  by (auto simp: handled_def)

lemma visit_closure:
  assumes "fill_inv G ch V0 C0 (v, cs, q)" "visit G ch c d (v, cs, q) = Some (v', cs', q')"
  shows "vset v \<subseteq> vset v'" and "set cs' - set q' \<subseteq> set cs - set q" and "handled G ch (vset v') c d"
proof -
  obtain cx cy dx dy where [simp]: "c = (cx, cy)" "d = (dx, dy)" by (cases c; cases d) auto
  let ?nx = "cx + dx" and ?ny = "cy + dy"
  from assms(1) have vis: "vis_ok G v" by (simp add: fill_inv_def)
  have "vset v \<subseteq> vset v' \<and> set cs' - set q' \<subseteq> set cs - set q \<and> handled G ch (vset v') c d"
  proof (cases "inBounds G ?nx ?ny")
    case False
    with assms(2) show ?thesis by (auto simp: visit_def handled_def)
  next
    case True
    from visited_at_inBounds[OF vis True] obtain b where b: "visited_at v ?nx ?ny = Some b" by blast
    show ?thesis
    proof (cases b)
      case True
      with b have "(?nx, ?ny) \<in> vset v" by (simp add: vset_def)
      with assms(2) b True \<open>inBounds G ?nx ?ny\<close> show ?thesis
        by (auto simp: visit_def handled_def Let_def)
    next
      case False
      show ?thesis
      proof (cases "grid_at G ?nx ?ny = Some ch")
        case T: True
        with assms(2) b False \<open>inBounds G ?nx ?ny\<close>
        have "v' = mark_visited v ?nx ?ny" "cs' = cs @ [(?nx, ?ny)]" "q' = q @ [(?nx, ?ny)]"
          by (auto simp: visit_def Let_def)
        with vset_mark[OF vis \<open>inBounds G ?nx ?ny\<close>] show ?thesis
          by (auto simp: handled_def)
      next
        case F: False
        with assms(2) b False \<open>inBounds G ?nx ?ny\<close> have "v' = v" "cs' = cs" "q' = q"
          by (auto simp: visit_def Let_def split: option.splits if_splits)
        with F show ?thesis by (auto simp: handled_def)
      qed
    qed
  qed
  then show "vset v \<subseteq> vset v'" and "set cs' - set q' \<subseteq> set cs - set q" and "handled G ch (vset v') c d"
    by blast+
qed

lemma visit_all_closure:
  assumes "dims_ok G" "fill_inv G ch V0 C0 (v, cs, q)"
    "for_each directions (visit G ch c) (v, cs, q) = Some (v', cs', q')"
  shows "vset v \<subseteq> vset v'" and "set cs' - set q' \<subseteq> set cs - set q"
    and "\<forall>d \<in> set directions. handled G ch (vset v') c d"
proof -
  let ?I = "\<lambda>pre s. fill_inv G ch V0 C0 s \<and> vset v \<subseteq> vset (fst s) \<and>
     set (fst (snd s)) - set (snd (snd s)) \<subseteq> set cs - set q \<and>
     (\<forall>d \<in> set pre. handled G ch (vset (fst s)) c d)"
  have "\<exists>s'. for_each directions (visit G ch c) (v, cs, q) = Some s' \<and> ?I ([] @ directions) s'"
  proof (rule for_each_rule[where I = ?I])
    show "?I [] (v, cs, q)" using assms(2) by simp
  next
    fix pre d s
    assume I: "?I pre s" and "d \<in> set directions"
    obtain v1 cs1 q1 where s: "s = (v1, cs1, q1)" by (cases s)
    from I s have f1: "fill_inv G ch V0 C0 (v1, cs1, q1)" by simp
    from visit_fill_inv[OF assms(1) f1, of c d] obtain v2 cs2 q2 where
      v2: "visit G ch c d (v1, cs1, q1) = Some (v2, cs2, q2)" "fill_inv G ch V0 C0 (v2, cs2, q2)"
      by (metis prod_cases3)
    note cl = visit_closure[OF f1 v2(1)]
    have "\<forall>d' \<in> set (pre @ [d]). handled G ch (vset v2) c d'"
      using I s cl(1,3) by (auto intro: handled_mono)
    with v2 cl I s show "\<exists>s'. visit G ch c d s = Some s' \<and> ?I (pre @ [d]) s'"
      by auto
  qed
  with assms(3) show "vset v \<subseteq> vset v'" and "set cs' - set q' \<subseteq> set cs - set q"
    and "\<forall>d \<in> set directions. handled G ch (vset v') c d"
    by auto
qed

lemma bfs_closure:
  assumes "dims_ok G" "fill_inv G ch V0 C0 (v, cs, q)" "closed_under G ch (set cs - set q) (vset v)"
    "bfs G ch v cs q = Some (v', cs')"
  shows "closed_under G ch (set cs') (vset v')"
  using assms
proof (induction G ch v cs q rule: bfs.induct)
  case (1 G character visited cs)
  then show ?case by simp
next
  case (2 G character visited cs c queue)
  from "2.prems"(2) have f: "fill_inv G character V0 C0 (visited, cs, queue)"
    by (auto simp: fill_inv_def)
  then have "\<exists>s'. for_each directions (visit G character c) (visited, cs, queue) = Some s' \<and> fill_inv G character V0 C0 s'"
    by (rule for_each_invariant) (rule visit_fill_inv[OF "2.prems"(1)])
  then obtain v1 cs1 q1 where s1: "for_each directions (visit G character c) (visited, cs, queue) = Some (v1, cs1, q1)"
    "fill_inv G character V0 C0 (v1, cs1, q1)"
    by (metis prod_cases3)
  note cl = visit_all_closure[OF "2.prems"(1) f s1(1)]
  have "closed_under G character (set cs1 - set q1) (vset v1)"
    unfolding closed_under_def
  proof (intro ballI)
    fix c' d assume c': "c' \<in> set cs1 - set q1" and d: "d \<in> set directions"
    with cl(2) have "c' \<in> set cs - set queue" by blast
    show "handled G character (vset v1) c' d"
    proof (cases "c' = c")
      case True
      with cl(3) d show ?thesis by simp
    next
      case False
      with \<open>c' \<in> set cs - set queue\<close> have "c' \<in> set cs - set (c # queue)" by simp
      with "2.prems"(3) d have "handled G character (vset visited) c' d"
        by (simp add: closed_under_def)
      then show ?thesis using cl(1) by (rule handled_mono)
    qed
  qed
  moreover from "2.prems"(4) s1(1) have "bfs G character v1 cs1 q1 = Some (v', cs')" by simp
  ultimately show ?case
    using "2.IH"[OF s1(1) refl refl "2.prems"(1) s1(2)] by blast
qed

definition regions_closed :: "input \<Rightarrow> Region list \<Rightarrow> bool" where
  "regions_closed G rs \<longleftrightarrow> (\<forall>r \<in> set rs. closed_under G (char r) (set (cells r)) (set (cells r)))"

lemma directions_opposite: "(dx, dy) \<in> set directions \<Longrightarrow> (- dx, - dy) \<in> set directions"
  by (auto simp: directions_def)

lemma closed_underD:
  assumes "closed_under G ch D V" "(cx, cy) \<in> D" "(dx, dy) \<in> set directions"
    "inBounds G (cx + dx) (cy + dy)" "grid_at G (cx + dx) (cy + dy) = Some ch"
  shows "(cx + dx, cy + dy) \<in> V"
proof -
  from assms(1,2,3) have "handled G ch V (cx, cy) (dx, dy)"
    unfolding closed_under_def by blast
  with assms(4,5) show ?thesis by (simp add: handled_def)
qed

lemma scan_cell_closed:
  assumes "dims_ok G" "inBounds G x y" "regions_inv G (v, rs)" "regions_closed G rs"
    "scan_cell G y x (v, rs) = Some (v', rs')"
  shows "regions_closed G rs'"
proof -
  from assms(3) have inv: "vis_ok G v" "vset v = set (concat (map cells rs))"
    "\<forall>r \<in> set rs. \<forall>(x, y) \<in> set (cells r). inBounds G x y \<and> grid_at G x y = Some (char r)"
    by (auto simp: regions_inv_def)
  from visited_at_inBounds[OF inv(1) assms(2)] obtain b where b: "visited_at v x y = Some b" by blast
  show ?thesis
  proof (cases b)
    case True
    with b assms(4,5) show ?thesis by (simp add: scan_cell_def)
  next
    case False
    from grid_at_inBounds[OF assms(1,2)] obtain ch where ch: "grid_at G x y = Some ch" by blast
    from b False have notin: "(x, y) \<notin> vset v" by (simp add: vset_def)
    have f0: "fill_inv G ch (vset v) {(x, y)} (mark_visited v x y, [(x, y)], [(x, y)])"
      unfolding fill_inv_def prod.case
      using vis_ok_mark[OF inv(1)] vset_mark[OF inv(1) assms(2)] notin assms(2) ch by auto
    from bfs_fill_inv[OF assms(1) this] obtain v2 cs where
      bfs: "bfs G ch (mark_visited v x y) [(x, y)] [(x, y)] = Some (v2, cs)" and
      f: "fill_inv G ch (vset v) {(x, y)} (v2, cs, [])"
      by blast
    have "closed_under G ch (set [(x, y)] - set [(x, y)]) (vset (mark_visited v x y))"
      by (simp add: closed_under_def)
    from bfs_closure[OF assms(1) f0 this bfs] have cl: "closed_under G ch (set cs) (vset v2)" .
    from f have f': "vset v2 = vset v \<union> set cs" "vset v \<inter> set cs = {}"
      "\<forall>(x, y) \<in> set cs. inBounds G x y \<and> grid_at G x y = Some ch"
      by (auto simp: fill_inv_def)
    have new: "closed_under G ch (set cs) (set cs)"
      unfolding closed_under_def
    proof (intro ballI)
      fix c d assume c: "c \<in> set cs" and d: "d \<in> set directions"
      obtain cx cy dx dy where [simp]: "c = (cx, cy)" "d = (dx, dy)" by (cases c; cases d) auto
      let ?n = "(cx + dx, cy + dy)"
      show "handled G ch (set cs) c d"
        unfolding handled_def
      proof
        assume n: "inBounds G (fst c + fst d) (snd c + snd d) \<and>
                   grid_at G (fst c + fst d) (snd c + snd d) = Some ch"
        with cl c d have "?n \<in> vset v2" by (auto intro: closed_underD)
        moreover have "?n \<notin> vset v"
        proof
          assume "?n \<in> vset v"
          with inv(2) obtain r0 where r0: "r0 \<in> set rs" "?n \<in> set (cells r0)" by auto
          with inv(3) n have "char r0 = ch" by fastforce
          from assms(4) r0(1) have c0: "closed_under G ch (set (cells r0)) (set (cells r0))"
            using \<open>char r0 = ch\<close> by (auto simp: regions_closed_def)
          from directions_opposite[of dx dy] d have od: "(- dx, - dy) \<in> set directions" by simp
          from f'(3) c have "inBounds G cx cy" "grid_at G cx cy = Some ch" by auto
          with closed_underD[OF c0 r0(2) od] have "(cx, cy) \<in> set (cells r0)" by simp
          with r0(1) inv(2) have "c \<in> vset v" by auto
          with f'(2) c show False by blast
        qed
        ultimately show "(fst c + fst d, snd c + snd d) \<in> set cs" using f'(1) by simp
      qed
    qed
    have "rs' = rs @ [\<lparr>cells = cs, char = ch\<rparr>]"
      using assms(5) b False ch bfs by (simp add: scan_cell_def)
    with assms(4) new show ?thesis by (auto simp: regions_closed_def)
  qed
qed

lemma findRegions_closed:
  assumes "dims_ok G" "findRegions G = Some rs"
  shows "regions_closed G rs"
proof -
  let ?v0 = "replicate (nat (height G)) (replicate (nat (width G)) False)"
  let ?I = "\<lambda>s. regions_inv G s \<and> regions_closed G (snd s)"
  have cell: "\<exists>s'. scan_cell G y x s = Some s' \<and> ?I s'" if "?I s" "inBounds G x y" for s x y
  proof -
    obtain v1 rs1 where s: "s = (v1, rs1)" by (cases s)
    from scan_cell_inv[OF assms(1) that(2), of v1 rs1] that(1) s obtain v2 rs2 where
      "scan_cell G y x (v1, rs1) = Some (v2, rs2)" "regions_inv G (v2, rs2)" by auto
    with scan_cell_closed[OF assms(1) that(2), of v1 rs1 v2 rs2] that(1) s show ?thesis by auto
  qed
  have row: "\<exists>s'. for_each [0 .. width G - 1] (scan_cell G y) s = Some s' \<and> ?I s'"
    if "?I s" "y \<in> set [0 .. height G - 1]" for s y
  proof (rule for_each_invariant[where I = ?I, OF that(1)])
    fix x s1 assume "?I s1" "x \<in> set [0 .. width G - 1]"
    with that(2) show "\<exists>s'. scan_cell G y x s1 = Some s' \<and> ?I s'"
      by (intro cell) (auto simp: inBounds_def)
  qed
  have v0: "vset ?v0 = {}"
    by (auto simp: vset_def visited_at_def js_index_def split: option.splits if_splits)
  have "?I (?v0, [])" using v0 by (simp add: regions_inv_def vis_ok_def regions_closed_def)
  then have "\<exists>s'. for_each [0 .. height G - 1] (\<lambda>y. for_each [0 .. width G - 1] (scan_cell G y)) (?v0, []) = Some s' \<and> ?I s'"
    by (rule for_each_invariant[where I = ?I]) (rule row)
  with assms(2) show ?thesis by (auto simp: findRegions_def)
qed

subsection \<open>A uniform grid is connected\<close>

lemma closed_set_is_grid:
  assumes sub: "S \<subseteq> grid_cells G" and start: "(x0, y0) \<in> S"
    and closed: "\<And>x y dx dy. (x, y) \<in> S \<Longrightarrow> (dx, dy) \<in> set directions \<Longrightarrow>
                   inBounds G (x + dx) (y + dy) \<Longrightarrow> (x + dx, y + dy) \<in> S"
  shows "S = grid_cells G"
proof -
  from sub start have b0: "inBounds G x0 y0" by (auto simp: grid_cells_def)
  have right: "(x + 1, y) \<in> S" if "(x, y) \<in> S" "x + 1 < width G" for x y
  proof -
    from that sub have "inBounds G (x + 1) y" by (auto simp: grid_cells_def inBounds_def)
    with closed[OF that(1), of 1 0] show ?thesis by (simp add: directions_def)
  qed
  have left: "(x - 1, y) \<in> S" if "(x, y) \<in> S" "0 \<le> x - 1" for x y
  proof -
    from that sub have "inBounds G (x + (-1)) y" by (auto simp: grid_cells_def inBounds_def)
    with closed[OF that(1), of "-1" 0] show ?thesis by (simp add: directions_def)
  qed
  have down: "(x, y + 1) \<in> S" if "(x, y) \<in> S" "y + 1 < height G" for x y
  proof -
    from that sub have "inBounds G x (y + 1)" by (auto simp: grid_cells_def inBounds_def)
    with closed[OF that(1), of 0 1] show ?thesis by (simp add: directions_def)
  qed
  have up: "(x, y - 1) \<in> S" if "(x, y) \<in> S" "0 \<le> y - 1" for x y
  proof -
    from that sub have "inBounds G x (y + (-1))" by (auto simp: grid_cells_def inBounds_def)
    with closed[OF that(1), of 0 "-1"] show ?thesis by (simp add: directions_def)
  qed
  have row_ge: "x < width G \<longrightarrow> (x, y0) \<in> S" if "x0 \<le> x" for x
    using that
  proof (induction x rule: int_ge_induct)
    case base
    with start show ?case by simp
  next
    case (step i)
    then show ?case using right[of i y0] by auto
  qed
  have row_le: "0 \<le> x \<longrightarrow> (x, y0) \<in> S" if "x \<le> x0" for x
    using that
  proof (induction x rule: int_le_induct)
    case base
    with start show ?case by simp
  next
    case (step i)
    then show ?case using left[of i y0] by auto
  qed
  have row: "(x, y0) \<in> S" if "0 \<le> x" "x < width G" for x
    using row_ge[of x] row_le[of x] that by (cases "x0 \<le> x") auto
  have col_ge: "y < height G \<longrightarrow> (x, y) \<in> S" if "y0 \<le> y" "0 \<le> x" "x < width G" for x y
    using that(1)
  proof (induction y rule: int_ge_induct)
    case base
    with row[OF that(2,3)] show ?case by simp
  next
    case (step i)
    then show ?case using down[of x i] by auto
  qed
  have col_le: "0 \<le> y \<longrightarrow> (x, y) \<in> S" if "y \<le> y0" "0 \<le> x" "x < width G" for x y
    using that(1)
  proof (induction y rule: int_le_induct)
    case base
    with row[OF that(2,3)] show ?case by simp
  next
    case (step i)
    then show ?case using up[of x i] by auto
  qed
  have "(x, y) \<in> S" if "inBounds G x y" for x y
    using col_ge[of y x] col_le[of y x] that by (cases "y0 \<le> y") (auto simp: inBounds_def)
  with sub show ?thesis by (auto simp: grid_cells_def)
qed

section \<open>Coordinate keys and the perimeter\<close>

subsection \<open>Coordinate keys are parsed back to their coordinates\<close>

lemma of_char_digit_char: "d < 10 \<Longrightarrow> (of_char (digit_char d) :: nat) = 48 + d"
  by (simp add: digit_char_def)

lemma digit_val_digit_char: "d < 10 \<Longrightarrow> digit_val (digit_char d) = Some d"
  by (simp add: digit_val_def of_char_digit_char)

lemma digit_char_not_sep:
  assumes "d < 10"
  shows "digit_char d \<noteq> CHR '',''" and "digit_char d \<noteq> CHR ''-''"
proof -
  show "digit_char d \<noteq> CHR '',''"
  proof
    assume "digit_char d = CHR '',''"
    then have "(of_char (digit_char d) :: nat) = of_char (CHR '','')" by simp
    with of_char_digit_char[OF assms] show False by simp
  qed
  show "digit_char d \<noteq> CHR ''-''"
  proof
    assume "digit_char d = CHR ''-''"
    then have "(of_char (digit_char d) :: nat) = of_char (CHR ''-'')" by simp
    with of_char_digit_char[OF assms] show False by simp
  qed
qed

lemma show_nat_chars: "c \<in> set (show_nat n) \<Longrightarrow> c \<noteq> CHR '','' \<and> c \<noteq> CHR ''-''"
proof (induction n rule: show_nat.induct)
  case (1 n)
  show ?case
  proof (cases "n < 10")
    case True
    with "1.prems" digit_char_not_sep[of n] show ?thesis
      by (simp add: show_nat.simps[of n])
  next
    case False
    have "n mod 10 < 10" by simp
    from digit_char_not_sep[OF this] "1.IH"[OF False] "1.prems" False show ?thesis
      by (auto simp: show_nat.simps[of n])
  qed
qed

lemma show_nat_nonempty: "show_nat n \<noteq> []"
  by (simp add: show_nat.simps[of n])

lemma parse_digits_snoc:
  "parse_digits acc (cs @ [c]) =
     (case parse_digits acc cs of
        None \<Rightarrow> None
      | Some m \<Rightarrow> (case digit_val c of None \<Rightarrow> None | Some d \<Rightarrow> Some (10 * m + d)))"
  by (induction cs arbitrary: acc) (auto split: option.splits)

lemma parse_digits_show_nat: "parse_digits 0 (show_nat n) = Some n"
proof (induction n rule: show_nat.induct)
  case (1 n)
  show ?case
  proof (cases "n < 10")
    case True
    then show ?thesis by (simp add: show_nat.simps[of n] digit_val_digit_char)
  next
    case False
    have "n mod 10 < 10" by simp
    with "1.IH"[OF False] False show ?thesis
      by (simp add: show_nat.simps[of n] parse_digits_snoc digit_val_digit_char)
  qed
qed

lemma Number_show_int: "Number (show_int i) = Some i"
proof (cases "i < 0")
  case True
  then show ?thesis
    by (simp add: Number_def show_int_def show_nat_nonempty parse_digits_show_nat)
next
  case False
  obtain c cs where s: "show_nat (nat i) = c # cs"
    using show_nat_nonempty[of "nat i"] by (cases "show_nat (nat i)") auto
  then have "c \<in> set (show_nat (nat i))" by simp
  from show_nat_chars[OF this] have "c \<noteq> CHR ''-''" by simp
  with False s parse_digits_show_nat[of "nat i"] show ?thesis
    by (simp add: Number_def show_int_def)
qed

lemma show_int_chars: "c \<in> set (show_int i) \<Longrightarrow> c \<noteq> CHR '',''"
  using show_nat_chars by (auto simp: show_int_def split: if_splits)

lemma split_on_no_sep: "sep \<notin> set xs \<Longrightarrow> split_on sep xs = [xs]"
  by (induction xs) auto

lemma split_on_first: "sep \<notin> set xs \<Longrightarrow> split_on sep (xs @ sep # ys) = xs # split_on sep ys"
  by (induction xs) auto

lemma parseCoordinateKey_coordinateKey [simp]:
  "parseCoordinateKey (coordinateKey x y) = Some (x, y)"
proof -
  have x: "CHR '','' \<notin> set (show_int x)" and y: "CHR '','' \<notin> set (show_int y)"
    using show_int_chars by blast+
  have "split_on (CHR '','') (coordinateKey x y) = [show_int x, show_int y]"
    unfolding coordinateKey_def using split_on_first[OF x, of "show_int y"] split_on_no_sep[OF y]
    by simp
  then show ?thesis by (simp add: parseCoordinateKey_def Number_show_int)
qed

lemma coordinateKey_inj [simp]: "coordinateKey x y = coordinateKey x' y' \<longleftrightarrow> x = x' \<and> y = y'"
proof
  assume "coordinateKey x y = coordinateKey x' y'"
  then have "parseCoordinateKey (coordinateKey x y) = parseCoordinateKey (coordinateKey x' y')"
    by simp
  then show "x = x' \<and> y = y'" by simp
qed simp

definition key_of :: "Cell \<Rightarrow> string" where
  "key_of c = coordinateKey (fst c) (snd c)"

lemma key_of_inj: "inj key_of"
  by (auto simp: inj_def key_of_def prod_eq_iff)

lemma key_in_cellSet [simp]:
  "coordinateKey x y \<in> set (map (\<lambda>(x, y). coordinateKey x y) cs) \<longleftrightarrow> (x, y) \<in> set cs"
  by (auto simp: image_iff intro!: bexI[where x = "(x, y)"])

lemma fold_count:
  "fold (\<lambda>a n. if P a then n + 1 else n) xs (k::nat) = k + length (filter P xs)"
  by (induction xs arbitrary: k) auto

lemma fold_add_sum_list:
  "fold (\<lambda>a n. n + f a) xs (k::nat) = k + sum_list (map f xs)"
  by (induction xs arbitrary: k) auto

lemma fold_directions_count:
  "fold (\<lambda>(dx, dy) perimeter. let nx = x + dx; ny = y + dy in
           if C nx ny then perimeter + 1 else perimeter) ds (n::nat)
   = n + length (filter (\<lambda>(dx, dy). C (x + dx) (y + dy)) ds)"
  by (induction ds arbitrary: n) (auto simp: Let_def)

lemma fold_cells_sum:
  assumes "\<And>x y n. F x y n = n + k x y"
  shows "fold (\<lambda>(x, y). F x y) cs (n::nat) = n + sum_list (map (\<lambda>(x, y). k x y) cs)"
  by (induction cs arbitrary: n) (auto simp: assms)

lemma computePerimeter_sum:
  assumes "\<forall>(x, y) \<in> set (cells r). inBounds G x y"
  shows "computePerimeter G r =
         sum_list (map (\<lambda>c. length (filter (\<lambda>d. exposed (set (cells r)) d c) directions)) (cells r))"
proof -
  let ?S = "set (cells r)"
  let ?K = "set (map (\<lambda>(x, y). coordinateKey x y) (cells r))"
  let ?C = "\<lambda>nx ny. \<not> inBounds G nx ny \<or> coordinateKey nx ny \<notin> ?K"
  have cond: "?C (x + dx) (y + dy) \<longleftrightarrow> exposed ?S (dx, dy) (x, y)" for x y dx dy
    using assms by (auto simp: exposed_def)
  have "fold (\<lambda>(x, y). fold (\<lambda>(dx, dy) perimeter. let nx = x + dx; ny = y + dy in
           if ?C nx ny then perimeter + 1 else perimeter) directions) (cells r) 0
      = 0 + sum_list (map (\<lambda>(x, y). length (filter (\<lambda>(dx, dy). ?C (x + dx) (y + dy)) directions)) (cells r))"
    by (rule fold_cells_sum) (rule fold_directions_count)
  then have "computePerimeter G r =
        sum_list (map (\<lambda>(x, y). length (filter (\<lambda>(dx, dy). ?C (x + dx) (y + dy)) directions)) (cells r))"
    unfolding computePerimeter_def by (simp only: Let_def add_0)
  also have "\<dots> = sum_list (map (\<lambda>c. length (filter (\<lambda>d. exposed ?S d c) directions)) (cells r))"
    unfolding cond by (simp add: case_prod_beta')
  finally show ?thesis .
qed

subsection \<open>Boundary edges and the perimeter\<close>

lemma fold_edges:
  "fold (\<lambda>(x, y) (leftEdges, rightEdges, topEdges, bottomEdges).
              let key = coordinateKey x y in
              (if PL x y then leftEdges @ [key] else leftEdges,
               if PR x y then rightEdges @ [key] else rightEdges,
               if PT x y then topEdges @ [key] else topEdges,
               if PB x y then bottomEdges @ [key] else bottomEdges))
        cs (l0, r0, t0, b0)
   = (l0 @ map key_of (filter (\<lambda>(x, y). PL x y) cs),
      r0 @ map key_of (filter (\<lambda>(x, y). PR x y) cs),
      t0 @ map key_of (filter (\<lambda>(x, y). PT x y) cs),
      b0 @ map key_of (filter (\<lambda>(x, y). PB x y) cs))"
  by (induction cs arbitrary: l0 r0 t0 b0) (auto simp: Let_def key_of_def)

definition edge_cells :: "Cell list \<Rightarrow> int \<times> int \<Rightarrow> Cell list" where
  "edge_cells cs d = filter (exposed (set cs) d) cs"

lemma collectEdges_eq:
  "collectEdges r =
     (map key_of (edge_cells (cells r) (-1, 0)), map key_of (edge_cells (cells r) (1, 0)),
      map key_of (edge_cells (cells r) (0, -1)), map key_of (edge_cells (cells r) (0, 1)))"
proof -
  have *: "(\<lambda>(x, y). coordinateKey (x + a) (y + b) \<notin> set (map (\<lambda>(x, y). coordinateKey x y) (cells r)))
         = exposed (set (cells r)) (a, b)" for a b
    by (auto simp: exposed_def fun_eq_iff simp del: set_map)
  show ?thesis
    unfolding collectEdges_def Let_def edge_cells_def
    using fold_edges[of
        "\<lambda>x y. coordinateKey (x - 1) y \<notin> set (map (\<lambda>(x, y). coordinateKey x y) (cells r))"
        "\<lambda>x y. coordinateKey (x + 1) y \<notin> set (map (\<lambda>(x, y). coordinateKey x y) (cells r))"
        "\<lambda>x y. coordinateKey x (y - 1) \<notin> set (map (\<lambda>(x, y). coordinateKey x y) (cells r))"
        "\<lambda>x y. coordinateKey x (y + 1) \<notin> set (map (\<lambda>(x, y). coordinateKey x y) (cells r))"
        "cells r" "[]" "[]" "[]" "[]", unfolded Let_def]
      *[of "-1" 0] *[of 1 0] *[of 0 "-1"] *[of 0 1]
    by (simp del: set_map)
qed

lemma sum_directions_split:
  "sum_list (map (\<lambda>c. length (filter (\<lambda>d. P d c) directions)) cs)
   = length (filter (P (-1, 0)) cs) + length (filter (P (1, 0)) cs)
   + length (filter (P (0, -1)) cs) + length (filter (P (0, 1)) cs)"
  by (induction cs) (auto simp: directions_def)

lemma perimeter_edge_cells:
  assumes "\<forall>(x, y) \<in> set (cells r). inBounds G x y"
  shows "computePerimeter G r =
         length (edge_cells (cells r) (-1, 0)) + length (edge_cells (cells r) (1, 0))
       + length (edge_cells (cells r) (0, -1)) + length (edge_cells (cells r) (0, 1))"
  unfolding computePerimeter_sum[OF assms] edge_cells_def
  by (rule sum_directions_split)

subsection \<open>The perimeter in closed form\<close>

definition inner_cells :: "Cell set \<Rightarrow> int \<times> int \<Rightarrow> Cell set" where
  "inner_cells S d = {c \<in> S. \<not> exposed S d c}"

lemma neighbours4_cases:
  "neighbours4 (x, y) b \<longleftrightarrow> b = (x + 1, y) \<or> b = (x - 1, y) \<or> b = (x, y + 1) \<or> b = (x, y - 1)"
proof (cases b)
  case (Pair u v)
  show ?thesis unfolding Pair neighbours4_def fst_conv snd_conv prod.inject by arith
qed

lemma inner_cells_opposite:
  "inner_cells S (- dx, - dy) = (\<lambda>(x, y). (x + dx, y + dy)) ` inner_cells S (dx, dy)"
proof -
  have "(u, v) \<in> (\<lambda>(x, y). (x + dx, y + dy)) ` inner_cells S (dx, dy)"
    if "(u, v) \<in> S" "(u - dx, v - dy) \<in> S" for u v
  proof -
    from that have "(u - dx, v - dy) \<in> inner_cells S (dx, dy)"
      by (simp add: inner_cells_def exposed_def)
    then show ?thesis by (rule rev_image_eqI) simp
  qed
  then show ?thesis
    by (auto simp: inner_cells_def exposed_def)
qed

lemma card_inner_cells_opposite:
  "card (inner_cells S (- dx, - dy)) = card (inner_cells S (dx, dy))"
  unfolding inner_cells_opposite
  by (rule card_image) (auto simp: inj_on_def)

lemma pairs_decomposition:
  "{{a, b} |a b. a \<in> S \<and> b \<in> S \<and> neighbours4 a b}
   = (\<lambda>(x, y). {(x, y), (x + 1, y)}) ` inner_cells S (1, 0)
   \<union> (\<lambda>(x, y). {(x, y), (x, y + 1)}) ` inner_cells S (0, 1)" (is "?P = ?R \<union> ?D")
proof (intro equalityI subsetI)
  fix p assume "p \<in> ?P"
  then obtain x y b where p: "p = {(x, y), b}" and S: "(x, y) \<in> S" "b \<in> S" and n: "neighbours4 (x, y) b"
    by auto
  from n consider "b = (x + 1, y)" | "b = (x - 1, y)" | "b = (x, y + 1)" | "b = (x, y - 1)"
    unfolding neighbours4_cases by blast
  then show "p \<in> ?R \<union> ?D"
  proof cases
    case 1
    with S have "(x, y) \<in> inner_cells S (1, 0)" by (simp add: inner_cells_def exposed_def)
    then have "(\<lambda>(x, y). {(x, y), (x + 1, y)}) (x, y) \<in> ?R" by (rule imageI)
    with p 1 show ?thesis by simp
  next
    case 2
    with S have "(x - 1, y) \<in> inner_cells S (1, 0)" by (simp add: inner_cells_def exposed_def)
    then have "(\<lambda>(x, y). {(x, y), (x + 1, y)}) (x - 1, y) \<in> ?R" by (rule imageI)
    with p 2 show ?thesis by (simp add: insert_commute)
  next
    case 3
    with S have "(x, y) \<in> inner_cells S (0, 1)" by (simp add: inner_cells_def exposed_def)
    then have "(\<lambda>(x, y). {(x, y), (x, y + 1)}) (x, y) \<in> ?D" by (rule imageI)
    with p 3 show ?thesis by simp
  next
    case 4
    with S have "(x, y - 1) \<in> inner_cells S (0, 1)" by (simp add: inner_cells_def exposed_def)
    then have "(\<lambda>(x, y). {(x, y), (x, y + 1)}) (x, y - 1) \<in> ?D" by (rule imageI)
    with p 4 show ?thesis by (simp add: insert_commute)
  qed
next
  fix p assume "p \<in> ?R \<union> ?D"
  then show "p \<in> ?P"
  proof
    assume "p \<in> ?R"
    then obtain x y where "p = {(x, y), (x + 1, y)}" "(x, y) \<in> S" "(x + 1, y) \<in> S"
      by (auto simp: inner_cells_def exposed_def)
    moreover have "neighbours4 (x, y) (x + 1, y)" by (simp add: neighbours4_cases)
    ultimately show ?thesis by blast
  next
    assume "p \<in> ?D"
    then obtain x y where "p = {(x, y), (x, y + 1)}" "(x, y) \<in> S" "(x, y + 1) \<in> S"
      by (auto simp: inner_cells_def exposed_def)
    moreover have "neighbours4 (x, y) (x, y + 1)" by (simp add: neighbours4_cases)
    ultimately show ?thesis by blast
  qed
qed

lemma card_pairs:
  assumes "finite S"
  shows "card {{a, b} |a b. a \<in> S \<and> b \<in> S \<and> neighbours4 a b}
         = card (inner_cells S (1, 0)) + card (inner_cells S (0, 1))"
proof -
  let ?f = "\<lambda>(x::int, y::int). {(x, y), (x + 1, y)}"
  let ?g = "\<lambda>(x::int, y::int). {(x, y), (x, y + 1)}"
  have fin: "finite (inner_cells S d)" for d using assms by (simp add: inner_cells_def)
  have injf: "inj_on ?f A" for A
    by (auto simp: inj_on_def doubleton_eq_iff)
  have injg: "inj_on ?g A" for A
    by (auto simp: inj_on_def doubleton_eq_iff)
  have disj: "?f ` A \<inter> ?g ` B = {}" for A B
    by (auto simp: doubleton_eq_iff)
  show ?thesis
    unfolding pairs_decomposition
    by (simp add: card_Un_disjoint fin disj card_image[OF injf] card_image[OF injg])
qed

lemma length_edge_cells:
  assumes "distinct cs"
  shows "length (edge_cells cs d) + card (inner_cells (set cs) d) = length cs"
proof -
  have "card (inner_cells (set cs) d) = length (filter (\<lambda>c. \<not> exposed (set cs) d c) cs)"
    using assms by (simp add: distinct_length_filter inner_cells_def Int_def conj_commute)
  then show ?thesis
    unfolding edge_cells_def using sum_length_filter_compl[of "exposed (set cs) d" cs] by simp
qed

lemma perimeter_closed_form:
  assumes "\<forall>(x, y) \<in> set (cells r). inBounds G x y" "distinct (cells r)"
  shows "int (computePerimeter G r) = 4 * int (length (cells r)) - 2 * int (internalAdjacentPairs r)"
proof -
  let ?cs = "cells r"
  let ?S = "set ?cs"
  have l: "card (inner_cells ?S (-1, 0)) = card (inner_cells ?S (1, 0))"
    using card_inner_cells_opposite[of ?S 1 0] by simp
  have t: "card (inner_cells ?S (0, -1)) = card (inner_cells ?S (0, 1))"
    using card_inner_cells_opposite[of ?S 0 1] by simp
  have "internalAdjacentPairs r = card (inner_cells ?S (1, 0)) + card (inner_cells ?S (0, 1))"
    unfolding internalAdjacentPairs_def by (rule card_pairs) simp
  with l t length_edge_cells[OF assms(2), of "(-1, 0)"] length_edge_cells[OF assms(2), of "(1, 0)"]
    length_edge_cells[OF assms(2), of "(0, -1)"] length_edge_cells[OF assms(2), of "(0, 1)"]
  show ?thesis
    unfolding perimeter_edge_cells[OF assms(1)] by linarith
qed

section \<open>Union-find\<close>

subsection \<open>Forests and roots\<close>

text \<open>
  A parent table is a forest when it maps the stored elements to stored elements and some
  rank decreases along every parent link that is not a self-loop. \<open>has_root par p r\<close> says that
  following the links from \<open>p\<close> ends in the self-loop \<open>r\<close>.
\<close>

definition ranked :: "('k \<Rightarrow> nat) \<Rightarrow> ('k \<rightharpoonup> 'k) \<Rightarrow> bool" where
  "ranked h par \<longleftrightarrow> (\<forall>p q. par p = Some q \<and> p \<noteq> q \<longrightarrow> h q < h p)"

definition forest :: "'k set \<Rightarrow> ('k \<rightharpoonup> 'k) \<Rightarrow> bool" where
  "forest E par \<longleftrightarrow> dom par = E \<and> ran par \<subseteq> E \<and> (\<exists>h. ranked h par)"

lemma rankedD: "ranked h par \<Longrightarrow> par p = Some q \<Longrightarrow> p \<noteq> q \<Longrightarrow> h q < h p"
  by (simp add: ranked_def)

inductive has_root :: "('k \<rightharpoonup> 'k) \<Rightarrow> 'k \<Rightarrow> 'k \<Rightarrow> bool" for par where
  root: "par r = Some r \<Longrightarrow> has_root par r r"
| step: "par p = Some q \<Longrightarrow> p \<noteq> q \<Longrightarrow> has_root par q r \<Longrightarrow> has_root par p r"

lemma has_root_is_root: "has_root par p r \<Longrightarrow> par r = Some r"
  by (induction rule: has_root.induct) auto

lemma has_root_unique: "has_root par p r \<Longrightarrow> has_root par p r' \<Longrightarrow> r = r'"
proof (induction arbitrary: r' rule: has_root.induct)
  case (root r)
  from root.prems root.hyps show ?case by (cases rule: has_root.cases) auto
next
  case (step p q r)
  from step.prems step.hyps(1,2) have "has_root par q r'"
    by (cases rule: has_root.cases) auto
  then show ?case by (rule step.IH)
qed

lemma has_root_parent:
  assumes "par p = Some q" "p \<noteq> q"
  shows "has_root par p r \<longleftrightarrow> has_root par q r"
proof
  assume "has_root par p r"
  then show "has_root par q r" using assms by (cases rule: has_root.cases) auto
next
  assume "has_root par q r"
  with assms show "has_root par p r" by (rule has_root.step)
qed

lemma has_root_dom: "has_root par p r \<Longrightarrow> p \<in> dom par"
  by (cases rule: has_root.cases) auto

lemma ranked_has_root:
  assumes "ranked h par" "dom par = E" "ran par \<subseteq> E" "p \<in> E"
  shows "\<exists>r. has_root par p r"
  using assms(4)
proof (induction "h p" arbitrary: p rule: less_induct)
  case less
  from less.prems assms(2) obtain q where q: "par p = Some q" by auto
  show ?case
  proof (cases "q = p")
    case True
    with q show ?thesis by (auto intro: has_root.root)
  next
    case False
    with q assms(1) have "h q < h p" by (auto simp: ranked_def)
    moreover from q assms(3) have "q \<in> E" by (auto simp: ran_def)
    ultimately obtain r where "has_root par q r" using less.hyps by blast
    with q False show ?thesis by (auto intro: has_root.step)
  qed
qed

lemma forest_has_root: "forest E par \<Longrightarrow> p \<in> E \<Longrightarrow> \<exists>r. has_root par p r"
  unfolding forest_def using ranked_has_root by fast

text \<open>One step of the loop of \<open>find\<close>: the parent of \<open>p\<close> becomes its grandparent.\<close>

lemma halve_has_root:
  assumes "ranked h par" "par p = Some pp" "p \<noteq> pp" "par pp = Some gp"
  shows "has_root (par(p \<mapsto> gp)) x s \<longleftrightarrow> has_root par x s"
proof -
  let ?par' = "par(p \<mapsto> gp)"
  from assms(1,2,3) have hp: "h pp < h p" by (auto simp: ranked_def)
  have gp_le: "h gp \<le> h pp"
    using rankedD[OF assms(1,4)] by (cases "pp = gp") auto
  with hp have gp: "gp \<noteq> p" by auto
  have up: "has_root par p s \<longleftrightarrow> has_root par gp s" for s
  proof (cases "pp = gp")
    case True
    with has_root_parent[of par p pp s, OF assms(2,3)] show ?thesis by simp
  next
    case False
    with has_root_parent[of par p pp s, OF assms(2,3)] has_root_parent[of par pp gp s, OF assms(4)]
    show ?thesis by simp
  qed
  have up': "has_root ?par' pp s \<Longrightarrow> has_root ?par' gp s" for s
  proof (cases "pp = gp")
    case False
    assume "has_root ?par' pp s"
    moreover from assms(3,4) have "?par' pp = Some gp" by simp
    ultimately show ?thesis using False has_root_parent[of ?par' pp gp s] by simp
  qed simp
  show ?thesis
  proof
    assume "has_root ?par' x s"
    then show "has_root par x s"
    proof (induction rule: has_root.induct)
      case (root r)
      with gp have "r \<noteq> p" by auto
      with root show ?case by (auto intro: has_root.root)
    next
      case (step x q r)
      show ?case
      proof (cases "x = p")
        case True
        with step.hyps(1) have "q = gp" by simp
        with step.IH up True show ?thesis by simp
      next
        case False
        with step.hyps(1) have "par x = Some q" by simp
        with step.hyps(2) step.IH show ?thesis by (auto intro: has_root.step)
      qed
    qed
  next
    assume "has_root par x s"
    then show "has_root ?par' x s"
    proof (induction rule: has_root.induct)
      case (root r)
      with assms(2,3) have "r \<noteq> p" by auto
      with root show ?case by (auto intro: has_root.root)
    next
      case (step x q r)
      show ?case
      proof (cases "x = p")
        case True
        with step.hyps(1) assms(2) have "q = pp" by simp
        with step.IH have "has_root ?par' pp r" by (simp only:)
        then have c: "has_root ?par' gp r" by (rule up')
        have a: "?par' p = Some gp" by simp
        have b: "p \<noteq> gp" using gp by simp
        have "has_root ?par' p r" by (rule has_root.step[OF a b c])
        then show ?thesis unfolding True .
      next
        case False
        with step.hyps(1) have "?par' x = Some q" by simp
        with step.hyps(2) step.IH show ?thesis by (auto intro: has_root.step)
      qed
    qed
  qed
qed

lemma halve_ranked:
  assumes "ranked h par" "par p = Some pp" "p \<noteq> pp" "par pp = Some gp"
  shows "ranked h (par(p \<mapsto> gp))" and "h gp < h p"
proof -
  from assms(1,2,3) have hp: "h pp < h p" by (auto simp: ranked_def)
  have "h gp \<le> h pp"
    using rankedD[OF assms(1,4)] by (cases "pp = gp") auto
  with hp show "h gp < h p" by simp
  with assms(1) show "ranked h (par(p \<mapsto> gp))" by (auto simp: ranked_def)
qed

lemma uf_find_ranked:
  assumes "ranked h par" "dom par = E" "ran par \<subseteq> E" "p \<in> E"
  shows "\<exists>r par'. uf_find par p = Some (r, par') \<and> has_root par p r \<and>
           ranked h par' \<and> dom par' = E \<and> ran par' \<subseteq> E \<and>
           (\<forall>x s. has_root par' x s \<longleftrightarrow> has_root par x s)"
  using assms
proof (induction "h p" arbitrary: p par rule: less_induct)
  case less
  from less.prems obtain pp where pp: "par p = Some pp" by auto
  show ?case
  proof (cases "p = pp")
    case True
    with pp have "uf_find par p = Some (p, par)" by (subst uf_find.simps) simp
    moreover from True pp have "has_root par p p" by (auto intro: has_root.root)
    ultimately show ?thesis using less.prems by auto
  next
    case False
    from pp less.prems(3) have "pp \<in> E" by (auto simp: ran_def)
    with less.prems(2) obtain gp where gp: "par pp = Some gp" by auto
    with less.prems(3) have gpE: "gp \<in> E" by (auto simp: ran_def)
    let ?par1 = "par(p \<mapsto> gp)"
    note r1 = halve_ranked[OF less.prems(1) pp False gp]
    note eq1 = halve_has_root[OF less.prems(1) pp False gp]
    have d1: "dom ?par1 = E" using less.prems(2,4) by auto
    have "ran ?par1 \<subseteq> insert gp (ran par)" by (auto simp: ran_def)
    with gpE less.prems(3) have ran1: "ran ?par1 \<subseteq> E" by auto
    from less.hyps[OF r1(2) r1(1) d1 ran1 gpE] obtain r par' where
      f: "uf_find ?par1 gp = Some (r, par')" "has_root ?par1 gp r" "ranked h par'" "dom par' = E"
        "ran par' \<subseteq> E" "\<forall>x s. has_root par' x s \<longleftrightarrow> has_root ?par1 x s"
      by blast
    have "uf_find par p = uf_find ?par1 gp"
      using pp False gp by (subst uf_find.simps) simp
    moreover have "has_root par p r"
    proof -
      from f(2) have "has_root par gp r" by (simp add: eq1)
      then have "has_root par pp r" using gp by (cases "pp = gp") (auto intro: has_root.step)
      with pp False show ?thesis by (auto intro: has_root.step)
    qed
    ultimately show ?thesis using f eq1 by auto
  qed
qed

lemma uf_find_forest:
  assumes "forest E par" "p \<in> E"
  shows "\<exists>r par'. uf_find par p = Some (r, par') \<and> has_root par p r \<and> forest E par' \<and>
           (\<forall>x s. has_root par' x s \<longleftrightarrow> has_root par x s)"
proof -
  from assms(1) obtain h where "ranked h par" "dom par = E" "ran par \<subseteq> E"
    by (auto simp: forest_def)
  from uf_find_ranked[OF this assms(2)] show ?thesis
    unfolding forest_def by blast
qed

subsection \<open>Linking two roots\<close>

lemma link_has_root:
  assumes "par ra = Some ra" "par rb = Some rb" "ra \<noteq> rb"
  shows "has_root (par(ra \<mapsto> rb)) x s \<longleftrightarrow>
         (\<exists>s0. has_root par x s0 \<and> s = (if s0 = ra then rb else s0))"
proof -
  let ?par' = "par(ra \<mapsto> rb)"
  have rb': "has_root ?par' rb rb" using assms by (auto intro: has_root.root)
  have a: "?par' ra = Some rb" by simp
  have ra': "has_root ?par' ra rb" by (rule has_root.step[OF a assms(3) rb'])
  show ?thesis
  proof
    assume "has_root ?par' x s"
    then show "\<exists>s0. has_root par x s0 \<and> s = (if s0 = ra then rb else s0)"
    proof (induction rule: has_root.induct)
      case (root r)
      with assms(3) have "r \<noteq> ra" by auto
      with root have "par r = Some r" by simp
      then have "has_root par r r" by (rule has_root.root)
      with \<open>r \<noteq> ra\<close> show ?case by auto
    next
      case (step p q r)
      from step.IH obtain s0 where s0: "has_root par q s0" "r = (if s0 = ra then rb else s0)" by blast
      show ?case
      proof (cases "p = ra")
        case True
        with step.hyps(1) have "q = rb" by simp
        moreover have "has_root par rb rb" using assms(2) by (rule has_root.root)
        ultimately have "s0 = rb" using s0(1) has_root_unique by fast
        with s0(2) assms(3) have "r = rb" by simp
        moreover have "has_root par ra ra" using assms(1) by (rule has_root.root)
        ultimately show ?thesis using True by auto
      next
        case False
        with step.hyps(1) have "par p = Some q" by simp
        from has_root.step[of par p q s0, OF this step.hyps(2) s0(1)] s0(2) show ?thesis by blast
      qed
    qed
  next
    assume "\<exists>s0. has_root par x s0 \<and> s = (if s0 = ra then rb else s0)"
    then obtain s0 where "has_root par x s0" and s: "s = (if s0 = ra then rb else s0)" by blast
    then have "has_root ?par' x (if s0 = ra then rb else s0)"
    proof (induction rule: has_root.induct)
      case (root r)
      show ?case
      proof (cases "r = ra")
        case True
        then have "(if r = ra then rb else r) = rb" by simp
        with ra' True show ?thesis by (simp only:)
      next
        case False
        with root have "?par' r = Some r" by simp
        then have "has_root ?par' r r" by (rule has_root.root)
        moreover from False have "(if r = ra then rb else r) = r" by simp
        ultimately show ?thesis by (simp only:)
      qed
    next
      case (step p q r)
      from step.hyps(1,2) assms(1) have "p \<noteq> ra" by auto
      with step.hyps(1) have "?par' p = Some q" by simp
      from has_root.step[of ?par' p q, OF this step.hyps(2)] step.IH[OF step.prems] show ?case .
    qed
    with s show "has_root ?par' x s" by simp
  qed
qed

lemma link_forest:
  assumes "forest E par" "par ra = Some ra" "par rb = Some rb" "ra \<noteq> rb"
  shows "forest E (par(ra \<mapsto> rb))"
proof -
  from assms(1) obtain h where h: "ranked h par" and d: "dom par = E" and r: "ran par \<subseteq> E"
    by (auto simp: forest_def)
  let ?par' = "par(ra \<mapsto> rb)"
  let ?h' = "\<lambda>k. if has_root par k ra then h k + h rb + 1 else h k"
  have raa: "has_root par ra ra" using assms(2) by (rule has_root.root)
  have rbb: "has_root par rb rb" using assms(3) by (rule has_root.root)
  have nrb: "\<not> has_root par rb ra" using has_root_unique[OF rbb] assms(4) by auto
  have "ranked ?h' ?par'"
    unfolding ranked_def
  proof (intro allI impI)
    fix p q assume pq: "?par' p = Some q \<and> p \<noteq> q"
    show "?h' q < ?h' p"
    proof (cases "p = ra")
      case True
      with pq have "q = rb" by simp
      with True raa nrb show ?thesis by simp
    next
      case False
      with pq have p: "par p = Some q" "p \<noteq> q" by simp_all
      from rankedD[OF h p] has_root_parent[of par p q ra, OF p] show ?thesis by simp
    qed
  qed
  moreover have "dom ?par' = E" using d assms(2) by auto
  moreover have "ran ?par' \<subseteq> insert rb (ran par)" by (auto simp: ran_def)
  with r d assms(3) have "ran ?par' \<subseteq> E" by auto
  ultimately show ?thesis unfolding forest_def by blast
qed

subsection \<open>The operations\<close>

definition same_set :: "('k \<rightharpoonup> 'k) \<Rightarrow> ('k \<times> 'k) set" where
  "same_set par = {(a, b). \<exists>r. has_root par a r \<and> has_root par b r}"

definition uf_inv :: "'k set \<Rightarrow> 'k UnionFind \<Rightarrow> bool" where
  "uf_inv E uf \<longleftrightarrow> forest E (parent uf) \<and> dom (sizes uf) = E"

lemma forest_root_in: "forest E par \<Longrightarrow> has_root par p r \<Longrightarrow> r \<in> E"
  using has_root_is_root[of par p r] by (auto simp: forest_def)

lemma uf_union_roots:
  assumes "uf_inv E uf" "a \<in> E" "b \<in> E"
  shows "\<exists>uf' ra rb t. uf_union a b uf = Some uf' \<and> uf_inv E uf' \<and>
           has_root (parent uf) a ra \<and> has_root (parent uf) b rb \<and> (t = ra \<or> t = rb) \<and>
           (\<forall>x s. has_root (parent uf') x s \<longleftrightarrow>
              (\<exists>s0. has_root (parent uf) x s0 \<and> s = (if s0 = ra \<or> s0 = rb then t else s0)))"
proof -
  from assms(1) have f0: "forest E (parent uf)" and ds: "dom (sizes uf) = E"
    by (auto simp: uf_inv_def)
  from uf_find_forest[OF f0 assms(2)] obtain ra par1 where
    A: "uf_find (parent uf) a = Some (ra, par1)" "has_root (parent uf) a ra" "forest E par1"
       "\<forall>x s. has_root par1 x s \<longleftrightarrow> has_root (parent uf) x s"
    by blast
  from uf_find_forest[OF A(3) assms(3)] obtain rb par2 where
    B: "uf_find par1 b = Some (rb, par2)" "has_root par1 b rb" "forest E par2"
       "\<forall>x s. has_root par2 x s \<longleftrightarrow> has_root par1 x s"
    by blast
  from A(4) B(4) have eq: "has_root par2 x s \<longleftrightarrow> has_root (parent uf) x s" for x s by simp
  from B(2) A(4) have rootb: "has_root (parent uf) b rb" by simp
  have ra2: "par2 ra = Some ra" using has_root_is_root[of par2 a ra] A(2) eq by simp
  have rb2: "par2 rb = Some rb" using has_root_is_root[of par2 b rb] rootb eq by simp
  show ?thesis
  proof (cases "ra = rb")
    case True
    let ?uf' = "\<lparr>parent = par2, sizes = sizes uf\<rparr>"
    have "uf_union a b uf = Some ?uf'" using A(1) B(1) True by (simp add: uf_union_def)
    moreover have "uf_inv E ?uf'" using B(3) ds by (simp add: uf_inv_def)
    moreover have "\<forall>x s. has_root (parent ?uf') x s \<longleftrightarrow>
              (\<exists>s0. has_root (parent uf) x s0 \<and> s = (if s0 = ra \<or> s0 = rb then ra else s0))"
    proof (intro allI iffI)
      fix x s assume "has_root (parent ?uf') x s"
      then have "has_root (parent uf) x s" by (simp add: eq)
      moreover have "s = (if s = ra \<or> s = rb then ra else s)" using True by simp
      ultimately show "\<exists>s0. has_root (parent uf) x s0 \<and> s = (if s0 = ra \<or> s0 = rb then ra else s0)"
        by blast
    next
      fix x s assume "\<exists>s0. has_root (parent uf) x s0 \<and> s = (if s0 = ra \<or> s0 = rb then ra else s0)"
      then obtain s0 where "has_root (parent uf) x s0" "s = (if s0 = ra \<or> s0 = rb then ra else s0)"
        by blast
      with True have "has_root (parent uf) x s" by (simp split: if_splits)
      then show "has_root (parent ?uf') x s" by (simp add: eq)
    qed
    ultimately show ?thesis using A(2) rootb by blast
  next
    case False
    from forest_root_in[OF f0 A(2)] ds obtain sizeA where sa: "sizes uf ra = Some sizeA" by auto
    from forest_root_in[OF f0 rootb] ds obtain sizeB where sb: "sizes uf rb = Some sizeB" by auto
    from forest_root_in[OF f0 A(2)] forest_root_in[OF f0 rootb] ds
    have ds': "dom ((sizes uf)(rb \<mapsto> n)) = E" "dom ((sizes uf)(ra \<mapsto> n)) = E" for n by auto
    show ?thesis
    proof (cases "sizeA < sizeB")
      case True
      let ?uf' = "\<lparr>parent = par2(ra \<mapsto> rb), sizes = (sizes uf)(rb \<mapsto> sizeB + sizeA)\<rparr>"
      have "uf_union a b uf = Some ?uf'"
        using A(1) B(1) False sa sb True by (simp add: uf_union_def)
      moreover have "uf_inv E ?uf'"
        using link_forest[OF B(3) ra2 rb2 False] ds' by (simp add: uf_inv_def)
      moreover have "\<forall>x s. has_root (parent ?uf') x s \<longleftrightarrow>
              (\<exists>s0. has_root (parent uf) x s0 \<and> s = (if s0 = ra \<or> s0 = rb then rb else s0))"
      proof -
        have e: "(if s0 = ra \<or> s0 = rb then rb else s0) = (if s0 = ra then rb else s0)" for s0
          by simp
        show ?thesis unfolding e using link_has_root[OF ra2 rb2 False] eq by simp
      qed
      ultimately show ?thesis using A(2) rootb by blast
    next
      case F: False
      let ?uf' = "\<lparr>parent = par2(rb \<mapsto> ra), sizes = (sizes uf)(ra \<mapsto> sizeA + sizeB)\<rparr>"
      from False have ne: "rb \<noteq> ra" by simp
      have "uf_union a b uf = Some ?uf'"
        using A(1) B(1) False sa sb F by (simp add: uf_union_def)
      moreover have "uf_inv E ?uf'"
        using link_forest[OF B(3) rb2 ra2 ne] ds' by (simp add: uf_inv_def)
      moreover have "\<forall>x s. has_root (parent ?uf') x s \<longleftrightarrow>
              (\<exists>s0. has_root (parent uf) x s0 \<and> s = (if s0 = ra \<or> s0 = rb then ra else s0))"
      proof -
        have e: "(if s0 = ra \<or> s0 = rb then ra else s0) = (if s0 = rb then ra else s0)" for s0
          by simp
        show ?thesis unfolding e using link_has_root[OF rb2 ra2 ne] eq by simp
      qed
      ultimately show ?thesis using A(2) rootb by blast
    qed
  qed
qed

lemma uf_union_spec:
  assumes "uf_inv E uf" "a \<in> E" "b \<in> E"
  obtains uf' where "uf_union a b uf = Some uf'" "uf_inv E uf'"
    "same_set (parent uf) \<subseteq> same_set (parent uf')"
    "(a, b) \<in> same_set (parent uf')"
    "\<And>T. sym T \<Longrightarrow> trans T \<Longrightarrow> same_set (parent uf) \<subseteq> T \<Longrightarrow> (a, b) \<in> T \<Longrightarrow> same_set (parent uf') \<subseteq> T"
proof -
  from uf_union_roots[OF assms] obtain uf' ra rb t where
    u: "uf_union a b uf = Some uf'" "uf_inv E uf'" and
    ra: "has_root (parent uf) a ra" and rb: "has_root (parent uf) b rb" and t: "t = ra \<or> t = rb" and
    eq: "\<And>x s. has_root (parent uf') x s \<longleftrightarrow>
              (\<exists>s0. has_root (parent uf) x s0 \<and> s = (if s0 = ra \<or> s0 = rb then t else s0))"
    by blast
  have mono: "same_set (parent uf) \<subseteq> same_set (parent uf')"
    unfolding same_set_def eq by blast
  have ab: "(a, b) \<in> same_set (parent uf')"
    unfolding same_set_def eq using ra rb by auto
  have least: "same_set (parent uf') \<subseteq> T"
    if T: "sym T" "trans T" "same_set (parent uf) \<subseteq> T" "(a, b) \<in> T" for T
  proof
    fix p assume "p \<in> same_set (parent uf')"
    then obtain x y sx sy where p: "p = (x, y)" and
      x: "has_root (parent uf) x sx" and y: "has_root (parent uf) y sy" and
      e: "(if sx = ra \<or> sx = rb then t else sx) = (if sy = ra \<or> sy = rb then t else sy)"
      unfolding same_set_def eq by auto
    from T(1,4) have ba: "(b, a) \<in> T" by (auto dest: symD)
    have in_T: "has_root (parent uf) u s \<Longrightarrow> has_root (parent uf) v s \<Longrightarrow> (u, v) \<in> T" for u v s
      using T(3) by (auto simp: same_set_def)
    consider "sx = sy" | "sx = ra" "sy = rb" | "sx = rb" "sy = ra"
      using e t by (auto split: if_splits)
    then have "(x, y) \<in> T"
    proof cases
      case 1
      with x y show ?thesis by (auto intro: in_T)
    next
      case 2
      with x y ra rb have "(x, a) \<in> T" "(b, y) \<in> T" by (auto intro: in_T)
      with T(2,4) show ?thesis by (meson transD)
    next
      case 3
      with x y ra rb have "(x, b) \<in> T" "(a, y) \<in> T" by (auto intro: in_T)
      with T(2) ba show ?thesis by (meson transD)
    qed
    with p show "p \<in> T" by simp
  qed
  from that[OF u mono ab least] show ?thesis .
qed

lemma createUnionFind_fold:
  "fold (\<lambda>e uf. \<lparr>parent = (parent uf)(e \<mapsto> e), sizes = (sizes uf)(e \<mapsto> 1)\<rparr>) es uf0
   = \<lparr>parent = (\<lambda>k. if k \<in> set es then Some k else parent uf0 k),
      sizes = (\<lambda>k. if k \<in> set es then Some 1 else sizes uf0 k)\<rparr>"
  by (induction es arbitrary: uf0) (auto simp: fun_eq_iff)

lemma createUnionFind_parent:
  "parent (createUnionFind es) = (\<lambda>k. if k \<in> set es then Some k else None)"
  "sizes (createUnionFind es) = (\<lambda>k. if k \<in> set es then Some 1 else None)"
  unfolding createUnionFind_def createUnionFind_fold by (simp_all cong: if_cong)

lemma createUnionFind_has_root:
  "has_root (parent (createUnionFind es)) x s \<longleftrightarrow> x \<in> set es \<and> s = x"
proof
  assume "has_root (parent (createUnionFind es)) x s"
  then show "x \<in> set es \<and> s = x"
    by (induction rule: has_root.induct) (auto simp: createUnionFind_parent split: if_splits)
next
  assume "x \<in> set es \<and> s = x"
  then show "has_root (parent (createUnionFind es)) x s"
    by (auto intro!: has_root.root simp: createUnionFind_parent)
qed

lemma createUnionFind_inv: "uf_inv (set es) (createUnionFind es)"
proof -
  have "ranked (\<lambda>_. 0) (parent (createUnionFind es))"
    by (auto simp: ranked_def createUnionFind_parent split: if_splits)
  then show ?thesis
    unfolding uf_inv_def forest_def
    by (auto simp: createUnionFind_parent ran_def split: if_splits)
qed

definition root_fn :: "('k \<rightharpoonup> 'k) \<Rightarrow> 'k \<Rightarrow> 'k" where
  "root_fn par x = (THE r. has_root par x r)"

lemma root_fn_eq: "has_root par x r \<Longrightarrow> root_fn par x = r"
  unfolding root_fn_def by (rule the_equality) (auto dest: has_root_unique)

lemma find_all_correct:
  assumes "forest E par" "set es \<subseteq> E"
  shows "\<exists>par'. find_all es par = Some (map (root_fn par) es, par')"
  using assms
proof (induction es arbitrary: par)
  case Nil
  then show ?case by simp
next
  case (Cons e es)
  from Cons.prems have "e \<in> E" by simp
  from uf_find_forest[OF Cons.prems(1) this] obtain r par1 where
    f: "uf_find par e = Some (r, par1)" "has_root par e r" "forest E par1"
       "\<forall>x s. has_root par1 x s \<longleftrightarrow> has_root par x s"
    by blast
  from f(4) have "root_fn par1 = root_fn par" by (simp add: root_fn_def fun_eq_iff)
  with Cons.IH[OF f(3)] Cons.prems(2) obtain par' where
    "find_all es par1 = Some (map (root_fn par) es, par')" by auto
  with f(1) root_fn_eq[OF f(2)] show ?case by simp
qed

lemma countComponents_correct:
  assumes "uf_inv E uf" "set es = E"
  shows "countComponents es uf = Some (card (root_fn (parent uf) ` E))"
proof -
  from assms have "forest E (parent uf)" "set es \<subseteq> E" by (auto simp: uf_inv_def)
  from find_all_correct[OF this] assms(2) show ?thesis
    by (auto simp: countComponents_def)
qed

lemma card_image_cong_rel:
  assumes "finite B" "\<And>x y. x \<in> B \<Longrightarrow> y \<in> B \<Longrightarrow> f x = f y \<longleftrightarrow> g x = g y"
  shows "card (f ` B) = card (g ` B)"
  using assms
proof (induction B rule: finite_induct)
  case empty
  then show ?case by simp
next
  case (insert x B)
  have "f x \<in> f ` B \<longleftrightarrow> g x \<in> g ` B"
    using insert.prems[of x] insert.prems[of _ x] by (auto simp: image_iff)
  moreover have "card (f ` B) = card (g ` B)"
    by (rule insert.IH) (use insert.prems in auto)
  ultimately show ?case using insert.hyps by (simp add: card_insert_if)
qed

section \<open>Sides as connected components of boundary cells\<close>

lemma side_adjacent_cases:
  "side_adjacent v (x, y) b \<longleftrightarrow>
     (if v then b = (x, y - 1) \<or> b = (x, y + 1) else b = (x - 1, y) \<or> b = (x + 1, y))"
proof (cases b)
  case (Pair p q)
  show ?thesis unfolding Pair side_adjacent_def fst_conv snd_conv prod.inject by (cases v) auto
qed

lemma side_adjacent_sym: "side_adjacent v a b \<Longrightarrow> side_adjacent v b a"
  by (auto simp: side_adjacent_def split: if_splits)

lemma same_side_equiv: "equiv UNIV (same_side B v)"
proof -
  have "sym {(a, b). a \<in> B \<and> b \<in> B \<and> side_adjacent v a b}"
    by (auto intro!: symI dest: side_adjacent_sym)
  then have "sym (same_side B v)" unfolding same_side_def by (rule sym_rtrancl)
  then show ?thesis
    unfolding same_side_def by (auto intro!: equivI refl_rtrancl trans_rtrancl)
qed

lemma same_set_sym: "sym (same_set par)"
  by (auto simp: same_set_def intro!: symI)

lemma same_set_trans: "trans (same_set par)"
  by (auto simp: same_set_def intro!: transI dest: has_root_unique)

lemma same_set_root_fn:
  assumes "has_root par a ra" "has_root par b rb"
  shows "(a, b) \<in> same_set par \<longleftrightarrow> root_fn par a = root_fn par b"
  using assms root_fn_eq[OF assms(1)] root_fn_eq[OF assms(2)]
  by (auto simp: same_set_def dest: has_root_unique)

lemma union_if_present_spec:
  assumes "uf_inv E uf" "p \<in> E"
  obtains uf' where "union_if_present E p other uf = Some uf'" "uf_inv E uf'"
    "same_set (parent uf) \<subseteq> same_set (parent uf')"
    "other \<in> E \<Longrightarrow> (p, other) \<in> same_set (parent uf')"
    "\<And>T. sym T \<Longrightarrow> trans T \<Longrightarrow> same_set (parent uf) \<subseteq> T \<Longrightarrow> (other \<in> E \<Longrightarrow> (p, other) \<in> T)
       \<Longrightarrow> same_set (parent uf') \<subseteq> T"
proof (cases "other \<in> E")
  case True
  from uf_union_spec[OF assms True] obtain uf' where
    "uf_union p other uf = Some uf'" "uf_inv E uf'"
    "same_set (parent uf) \<subseteq> same_set (parent uf')"
    "(p, other) \<in> same_set (parent uf')"
    "\<And>T. sym T \<Longrightarrow> trans T \<Longrightarrow> same_set (parent uf) \<subseteq> T \<Longrightarrow> (p, other) \<in> T \<Longrightarrow> same_set (parent uf') \<subseteq> T"
    by blast
  with True show ?thesis by (intro that[of uf']) (auto simp: union_if_present_def)
next
  case False
  with assms show ?thesis by (intro that[of uf]) (auto simp: union_if_present_def)
qed

definition other_ends :: "bool \<Rightarrow> Cell \<Rightarrow> Cell \<times> Cell" where
  "other_ends v c = (if v then ((fst c, snd c - 1), (fst c, snd c + 1))
                     else ((fst c - 1, snd c), (fst c + 1, snd c)))"

lemma connect_position_unfold:
  "connect_position E v (key_of c) uf =
     (case union_if_present E (key_of c) (key_of (fst (other_ends v c))) uf of
        None \<Rightarrow> None
      | Some uf1 \<Rightarrow> union_if_present E (key_of c) (key_of (snd (other_ends v c))) uf1)"
  by (cases c; cases v)
     (simp_all add: connect_position_def key_of_def other_ends_def Let_def cong: option.case_cong)

lemma side_adjacent_other_ends:
  "side_adjacent v c b \<longleftrightarrow> b = fst (other_ends v c) \<or> b = snd (other_ends v c)"
  by (cases c) (simp add: side_adjacent_cases other_ends_def)

lemma connect_position_spec:
  assumes "uf_inv E uf" "key_of c \<in> E"
  obtains uf' where "connect_position E v (key_of c) uf = Some uf'" "uf_inv E uf'"
    "same_set (parent uf) \<subseteq> same_set (parent uf')"
    "\<And>b. side_adjacent v c b \<Longrightarrow> key_of b \<in> E \<Longrightarrow> (key_of c, key_of b) \<in> same_set (parent uf')"
    "\<And>T. sym T \<Longrightarrow> trans T \<Longrightarrow> same_set (parent uf) \<subseteq> T \<Longrightarrow>
       (\<And>b. side_adjacent v c b \<Longrightarrow> key_of b \<in> E \<Longrightarrow> (key_of c, key_of b) \<in> T)
       \<Longrightarrow> same_set (parent uf') \<subseteq> T"
proof -
  let ?o1 = "fst (other_ends v c)" and ?o2 = "snd (other_ends v c)"
  from union_if_present_spec[OF assms, of "key_of ?o1"] obtain uf1 where
    u1: "union_if_present E (key_of c) (key_of ?o1) uf = Some uf1" "uf_inv E uf1"
    "same_set (parent uf) \<subseteq> same_set (parent uf1)"
    "key_of ?o1 \<in> E \<Longrightarrow> (key_of c, key_of ?o1) \<in> same_set (parent uf1)"
    "\<And>T. sym T \<Longrightarrow> trans T \<Longrightarrow> same_set (parent uf) \<subseteq> T \<Longrightarrow>
       (key_of ?o1 \<in> E \<Longrightarrow> (key_of c, key_of ?o1) \<in> T) \<Longrightarrow> same_set (parent uf1) \<subseteq> T"
    by blast
  from union_if_present_spec[OF u1(2) assms(2), of "key_of ?o2"] obtain uf2 where
    u2: "union_if_present E (key_of c) (key_of ?o2) uf1 = Some uf2" "uf_inv E uf2"
    "same_set (parent uf1) \<subseteq> same_set (parent uf2)"
    "key_of ?o2 \<in> E \<Longrightarrow> (key_of c, key_of ?o2) \<in> same_set (parent uf2)"
    "\<And>T. sym T \<Longrightarrow> trans T \<Longrightarrow> same_set (parent uf1) \<subseteq> T \<Longrightarrow>
       (key_of ?o2 \<in> E \<Longrightarrow> (key_of c, key_of ?o2) \<in> T) \<Longrightarrow> same_set (parent uf2) \<subseteq> T"
    by blast
  show ?thesis
  proof (rule that[of uf2])
    show "connect_position E v (key_of c) uf = Some uf2"
      by (simp add: connect_position_unfold u1(1) u2(1))
    show "uf_inv E uf2" by (rule u2(2))
    show "same_set (parent uf) \<subseteq> same_set (parent uf2)" using u1(3) u2(3) by blast
  next
    fix b assume "side_adjacent v c b" "key_of b \<in> E"
    then show "(key_of c, key_of b) \<in> same_set (parent uf2)"
      unfolding side_adjacent_other_ends using u1(4) u2(3,4) by blast
  next
    fix T :: "(string \<times> string) set"
    assume T: "sym T" "trans T" "same_set (parent uf) \<subseteq> T"
      "\<And>b. side_adjacent v c b \<Longrightarrow> key_of b \<in> E \<Longrightarrow> (key_of c, key_of b) \<in> T"
    have "same_set (parent uf1) \<subseteq> T"
      by (rule u1(5)[OF T(1,2,3)]) (rule T(4), simp_all add: side_adjacent_other_ends)
    then show "same_set (parent uf2) \<subseteq> T"
      by (rule u2(5)[OF T(1,2)]) (rule T(4), simp_all add: side_adjacent_other_ends)
  qed
qed

lemma key_of_eq_iff [simp]: "key_of a = key_of b \<longleftrightarrow> a = b"
  using key_of_inj by (auto dest: injD)

lemma key_of_in_image [simp]: "key_of a \<in> key_of ` B \<longleftrightarrow> a \<in> B"
  by auto

definition key_rel :: "Cell set \<Rightarrow> (Cell \<times> Cell) set \<Rightarrow> (string \<times> string) set" where
  "key_rel B R = (\<lambda>p. (key_of (fst p), key_of (snd p))) ` {p \<in> R. fst p \<in> B \<and> snd p \<in> B}"

lemma key_rel_iff: "(key_of a, key_of b) \<in> key_rel B R \<longleftrightarrow> a \<in> B \<and> b \<in> B \<and> (a, b) \<in> R"
proof
  assume "(key_of a, key_of b) \<in> key_rel B R"
  then obtain p where "p \<in> R" "fst p \<in> B" "snd p \<in> B" "key_of a = key_of (fst p)" "key_of b = key_of (snd p)"
    unfolding key_rel_def by blast
  then show "a \<in> B \<and> b \<in> B \<and> (a, b) \<in> R" by simp
next
  assume "a \<in> B \<and> b \<in> B \<and> (a, b) \<in> R"
  then have "(a, b) \<in> {p \<in> R. fst p \<in> B \<and> snd p \<in> B}" by simp
  then have "(\<lambda>p. (key_of (fst p), key_of (snd p))) (a, b) \<in> key_rel B R"
    unfolding key_rel_def by (rule imageI)
  then show "(key_of a, key_of b) \<in> key_rel B R" by simp
qed

lemma key_relE:
  assumes "p \<in> key_rel B R"
  obtains a b where "p = (key_of a, key_of b)" "a \<in> B" "b \<in> B" "(a, b) \<in> R"
proof -
  from assms obtain q where "q \<in> R" "fst q \<in> B" "snd q \<in> B" "p = (key_of (fst q), key_of (snd q))"
    unfolding key_rel_def by blast
  then show ?thesis by (intro that[of "fst q" "snd q"]) simp_all
qed

lemma groupEdgeSegments_correct:
  "groupEdgeSegments (map key_of cs) v = Some (side_count (set cs) v)"
proof (cases "cs = []")
  case True
  then show ?thesis by (simp add: groupEdgeSegments_def side_count_def quotient_def)
next
  case False
  let ?B = "set cs"
  let ?ks = "map key_of cs"
  let ?E = "set ?ks"
  let ?A = "{(a, b). a \<in> ?B \<and> b \<in> ?B \<and> side_adjacent v a b}"
  let ?R = "same_side ?B v"
  let ?T = "key_rel ?B ?R"
  let ?uf0 = "createUnionFind ?ks"
  have E: "?E = key_of ` ?B" by simp
  note eqv = same_side_equiv[of ?B v]
  have R_refl: "(a, a) \<in> ?R" for a unfolding same_side_def by simp
  have R_sym: "(a, b) \<in> ?R \<Longrightarrow> (b, a) \<in> ?R" for a b using eqv by (auto simp: equiv_def dest: symD)
  have R_trans: "(a, b) \<in> ?R \<Longrightarrow> (b, c) \<in> ?R \<Longrightarrow> (a, c) \<in> ?R" for a b c
    using eqv by (auto simp: equiv_def dest: transD)
  have A_R: "a \<in> ?B \<Longrightarrow> b \<in> ?B \<Longrightarrow> side_adjacent v a b \<Longrightarrow> (a, b) \<in> ?R" for a b
    unfolding same_side_def by auto
  have symT: "sym ?T"
  proof (rule symI)
    fix x y assume "(x, y) \<in> ?T"
    then obtain a b where "(x, y) = (key_of a, key_of b)" "a \<in> ?B" "b \<in> ?B" "(a, b) \<in> ?R"
      by (rule key_relE)
    then show "(y, x) \<in> ?T" using R_sym[of a b] by (simp add: key_rel_iff)
  qed
  have transT: "trans ?T"
  proof (rule transI)
    fix x y z assume "(x, y) \<in> ?T" "(y, z) \<in> ?T"
    then obtain a b b' c where o: "(x, y) = (key_of a, key_of b)" "(y, z) = (key_of b', key_of c)"
      "a \<in> ?B" "c \<in> ?B" "(a, b) \<in> ?R" "(b', c) \<in> ?R"
      by (elim key_relE) blast
    from o(1,2) have "b' = b" by simp
    with o(5,6) have "(a, c) \<in> ?R" using R_trans[of a b c] by simp
    with o(1,2,3,4) show "(x, z) \<in> ?T" by (simp add: key_rel_iff)
  qed
  have inv0: "uf_inv ?E ?uf0" by (rule createUnionFind_inv)
  have same0: "same_set (parent ?uf0) \<subseteq> ?T"
  proof
    fix p assume "p \<in> same_set (parent ?uf0)"
    then obtain a where "p = (key_of a, key_of a)" "a \<in> ?B"
      by (auto simp: same_set_def createUnionFind_has_root)
    with R_refl[of a] show "p \<in> ?T" by (simp add: key_rel_iff)
  qed
  let ?I = "\<lambda>pre uf. uf_inv ?E uf \<and> same_set (parent uf) \<subseteq> ?T \<and>
     (\<forall>c b. key_of c \<in> set pre \<longrightarrow> side_adjacent v c b \<longrightarrow> b \<in> ?B \<longrightarrow>
        (key_of c, key_of b) \<in> same_set (parent uf))"
  have "\<exists>uf'. for_each ?ks (connect_position ?E v) ?uf0 = Some uf' \<and> ?I ([] @ ?ks) uf'"
  proof (rule for_each_rule[where I = ?I])
    show "?I [] ?uf0" using inv0 same0 by simp
  next
    fix pre p uf
    assume I: "?I pre uf" and p: "p \<in> set ?ks"
    from p obtain c where c: "p = key_of c" "c \<in> ?B" by auto
    then have cE: "key_of c \<in> ?E" by simp
    from I have inv: "uf_inv ?E uf" by simp
    from connect_position_spec[OF inv cE, of v] obtain uf' where
      u: "connect_position ?E v (key_of c) uf = Some uf'" "uf_inv ?E uf'"
      "same_set (parent uf) \<subseteq> same_set (parent uf')"
      "\<And>b. side_adjacent v c b \<Longrightarrow> key_of b \<in> ?E \<Longrightarrow> (key_of c, key_of b) \<in> same_set (parent uf')"
      "\<And>T. sym T \<Longrightarrow> trans T \<Longrightarrow> same_set (parent uf) \<subseteq> T \<Longrightarrow>
         (\<And>b. side_adjacent v c b \<Longrightarrow> key_of b \<in> ?E \<Longrightarrow> (key_of c, key_of b) \<in> T)
         \<Longrightarrow> same_set (parent uf') \<subseteq> T"
      by blast
    have "same_set (parent uf') \<subseteq> ?T"
    proof (rule u(5)[OF symT transT])
      show "same_set (parent uf) \<subseteq> ?T" using I by simp
    next
      fix b assume "side_adjacent v c b" "key_of b \<in> ?E"
      with c(2) A_R[of c b] show "(key_of c, key_of b) \<in> ?T" by (simp add: key_rel_iff)
    qed
    moreover have "(key_of c', key_of b) \<in> same_set (parent uf')"
      if "key_of c' \<in> set (pre @ [p])" "side_adjacent v c' b" "b \<in> ?B" for c' b
    proof (cases "key_of c' \<in> set pre")
      case True
      with I that have "(key_of c', key_of b) \<in> same_set (parent uf)" by blast
      with u(3) show ?thesis by blast
    next
      case False
      with that(1) c(1) have "c' = c" by simp
      with u(4)[of b] that show ?thesis by simp
    qed
    ultimately show "\<exists>uf'. connect_position ?E v p uf = Some uf' \<and> ?I (pre @ [p]) uf'"
      using u(1,2) c(1) by blast
  qed
  then obtain uf' where loop: "for_each ?ks (connect_position ?E v) ?uf0 = Some uf'"
    and inv': "uf_inv ?E uf'" and sub: "same_set (parent uf') \<subseteq> ?T"
    and edges: "\<And>c b. c \<in> ?B \<Longrightarrow> side_adjacent v c b \<Longrightarrow> b \<in> ?B \<Longrightarrow>
        (key_of c, key_of b) \<in> same_set (parent uf')"
    by auto
  let ?par = "parent uf'"
  from inv' have forest: "forest ?E ?par" by (simp add: uf_inv_def)
  have has: "\<exists>r. has_root ?par (key_of a) r" if "a \<in> ?B" for a
    using forest_has_root[OF forest, of "key_of a"] that by simp
  have R_same: "(key_of a, key_of b) \<in> same_set ?par" if "(a, b) \<in> ?R" "a \<in> ?B" for a b
    using that(1) unfolding same_side_def
  proof (induction rule: rtrancl_induct)
    case base
    from has[OF that(2)] show ?case by (auto simp: same_set_def)
  next
    case (step y z)
    from step.hyps(2) have "(key_of y, key_of z) \<in> same_set ?par" by (auto intro: edges)
    with step.IH show ?case using same_set_trans[of ?par] by (meson transD)
  qed
  have iff: "root_fn ?par (key_of a) = root_fn ?par (key_of b) \<longleftrightarrow> ?R `` {a} = ?R `` {b}"
    if "a \<in> ?B" "b \<in> ?B" for a b
  proof -
    from has[OF that(1)] has[OF that(2)] obtain ra rb where
      "has_root ?par (key_of a) ra" "has_root ?par (key_of b) rb" by blast
    then have "root_fn ?par (key_of a) = root_fn ?par (key_of b) \<longleftrightarrow> (key_of a, key_of b) \<in> same_set ?par"
      by (simp add: same_set_root_fn)
    also have "\<dots> \<longleftrightarrow> (a, b) \<in> ?R"
    proof
      assume "(key_of a, key_of b) \<in> same_set ?par"
      with sub have "(key_of a, key_of b) \<in> ?T" by blast
      then show "(a, b) \<in> ?R" by (simp add: key_rel_iff)
    next
      assume "(a, b) \<in> ?R"
      then show "(key_of a, key_of b) \<in> same_set ?par" using that(1) by (rule R_same)
    qed
    also have "\<dots> \<longleftrightarrow> ?R `` {a} = ?R `` {b}"
      using equiv_class_eq_iff[OF eqv, of a b] by simp
    finally show ?thesis .
  qed
  have "countComponents ?ks uf' = Some (card (root_fn ?par ` ?E))"
    by (rule countComponents_correct[OF inv' refl])
  also have "root_fn ?par ` ?E = (\<lambda>a. root_fn ?par (key_of a)) ` ?B" by auto
  also have "card \<dots> = card ((\<lambda>a. ?R `` {a}) ` ?B)"
    by (rule card_image_cong_rel) (simp_all add: iff)
  also have "(\<lambda>a. ?R `` {a}) ` ?B = ?B // ?R" by (auto simp: quotient_def)
  finally have "countComponents ?ks uf' = Some (side_count ?B v)" by (simp add: side_count_def)
  with loop False show ?thesis by (simp add: groupEdgeSegments_def Let_def)
qed

lemma set_edge_cells: "set (edge_cells cs d) = boundary (set cs) d"
  by (auto simp: edge_cells_def boundary_def)

lemma computeSides_correct: "computeSides r = Some (sides_spec r)"
  unfolding computeSides_def collectEdges_eq sides_spec_def Let_def
  by (simp add: groupEdgeSegments_correct set_edge_cells)

section \<open>Sides of particular shapes\<close>

subsection \<open>Bounds on the number of sides\<close>

definition side_class :: "Cell set \<Rightarrow> bool \<Rightarrow> Cell \<Rightarrow> Cell set" where
  "side_class B v a = same_side B v `` {a}"

lemma side_count_image: "side_count B v = card (side_class B v ` B)"
proof -
  have "B // same_side B v = side_class B v ` B"
    unfolding quotient_def side_class_def by blast
  then show ?thesis by (simp only: side_count_def)
qed

lemma side_class_eq_iff: "side_class B v a = side_class B v b \<longleftrightarrow> (a, b) \<in> same_side B v"
  unfolding side_class_def using equiv_class_eq_iff[OF same_side_equiv, of a b B v] by simp

lemma side_count_le: "finite B \<Longrightarrow> side_count B v \<le> card B"
  unfolding side_count_image by (rule card_image_le)

lemma side_count_less:
  assumes "finite B" "a \<in> B" "b \<in> B" "a \<noteq> b" "side_adjacent v a b"
  shows "side_count B v < card B"
proof -
  define f where "f = side_class B v"
  from assms have "(a, b) \<in> same_side B v" unfolding same_side_def by blast
  then have "f a = f b" unfolding f_def by (simp only: side_class_eq_iff)
  with assms(3,4) have "f ` B = f ` (B - {a})" by (auto simp: image_iff)
  then have "side_count B v = card (f ` (B - {a}))"
    by (simp only: side_count_image f_def)
  also have "\<dots> \<le> card (B - {a})" using assms(1) by (intro card_image_le) simp
  also have "\<dots> < card B" using assms(1,2) by (intro card_Diff1_less)
  finally show ?thesis .
qed

lemma side_count_one:
  assumes "b0 \<in> B" "\<And>b. b \<in> B \<Longrightarrow> (b0, b) \<in> same_side B v"
  shows "side_count B v = 1"
proof -
  define f where "f = side_class B v"
  have "f b = f b0" if "b \<in> B" for b
    unfolding f_def using assms(2)[OF that] by (simp only: side_class_eq_iff[symmetric])
  then have "f ` B \<subseteq> {f b0}" by blast
  moreover from assms(1) have "{f b0} \<subseteq> f ` B" by blast
  ultimately have "f ` B = {f b0}" by (rule equalityI)
  then have "card (f ` B) = 1" by simp
  then show ?thesis by (simp only: side_count_image f_def)
qed

lemma card_image_le_factor:
  assumes "finite B" "\<And>x y. x \<in> B \<Longrightarrow> y \<in> B \<Longrightarrow> f x = f y \<Longrightarrow> g x = g y"
  shows "card (g ` B) \<le> card (f ` B)"
  using assms
proof (induction B rule: finite_induct)
  case empty
  then show ?case by simp
next
  case (insert x B)
  have IH: "card (g ` B) \<le> card (f ` B)" by (rule insert.IH) (use insert.prems in auto)
  show ?case
  proof (cases "f x \<in> f ` B")
    case True
    then obtain y where "y \<in> B" "f x = f y" by auto
    with insert.prems[of x y] have "g x \<in> g ` B" by auto
    with True IH insert.hyps show ?thesis by (simp add: insert_absorb)
  next
    case False
    with insert.hyps have "card (f ` insert x B) = Suc (card (f ` B))" by simp
    moreover have "card (g ` insert x B) \<le> Suc (card (g ` B))"
      using insert.hyps by (simp add: card_insert_if)
    ultimately show ?thesis using IH by simp
  qed
qed

lemma same_side_coordinate:
  assumes "(a, b) \<in> same_side B v"
  shows "if v then fst a = fst b else snd a = snd b"
  using assms unfolding same_side_def
  by (induction rule: rtrancl_induct) (auto simp: side_adjacent_def split: if_splits)

lemma side_count_ge_columns:
  assumes "finite B"
  shows "card (fst ` B) \<le> side_count B True"
  unfolding side_count_image
proof (rule card_image_le_factor[OF assms])
  fix x y assume "x \<in> B" "y \<in> B" "side_class B True x = side_class B True y"
  then have "(x, y) \<in> same_side B True" by (simp only: side_class_eq_iff)
  from same_side_coordinate[OF this] show "fst x = fst y" by simp
qed

lemma side_count_pos:
  assumes "finite B" "B \<noteq> {}"
  shows "1 \<le> side_count B v"
proof -
  define f where "f = side_class B v"
  from assms have "finite (f ` B)" "f ` B \<noteq> {}" by simp_all
  then have "0 < card (f ` B)" by (simp add: card_gt_0_iff)
  then have "1 \<le> card (f ` B)" by simp
  then show ?thesis by (simp only: side_count_image f_def)
qed

lemma side_count_ge_two:
  assumes "finite B" "a \<in> B" "b \<in> B" "fst a \<noteq> fst b"
  shows "2 \<le> side_count B True"
proof -
  from assms have "{fst a, fst b} \<subseteq> fst ` B" by auto
  with assms(1) have "card {fst a, fst b} \<le> card (fst ` B)" by (intro card_mono) auto
  with assms(4) side_count_ge_columns[OF assms(1)] show ?thesis by simp
qed

subsection \<open>Rectangles\<close>

definition vseg :: "int \<Rightarrow> int \<Rightarrow> int \<Rightarrow> Cell set" where
  "vseg a lo hi = {(x, y). x = a \<and> lo \<le> y \<and> y < hi}"

definition hseg :: "int \<Rightarrow> int \<Rightarrow> int \<Rightarrow> Cell set" where
  "hseg b lo hi = {(x, y). y = b \<and> lo \<le> x \<and> x < hi}"

lemma boundary_rect:
  assumes "0 < w" "0 < h"
  shows "boundary (rect x0 y0 w h) (-1, 0) = vseg x0 y0 (y0 + h)"
    and "boundary (rect x0 y0 w h) (1, 0) = vseg (x0 + w - 1) y0 (y0 + h)"
    and "boundary (rect x0 y0 w h) (0, -1) = hseg y0 x0 (x0 + w)"
    and "boundary (rect x0 y0 w h) (0, 1) = hseg (y0 + h - 1) x0 (x0 + w)"
  using assms by (auto simp: boundary_def rect_def exposed_def vseg_def hseg_def)

lemma card_vseg: "card (vseg a lo hi) = nat (hi - lo)"
proof -
  have "vseg a lo hi = (\<lambda>y. (a, y)) ` {lo..<hi}" by (auto simp: vseg_def)
  moreover have "inj_on (\<lambda>y. (a, y)) {lo..<hi}" by (simp add: inj_on_def)
  ultimately show ?thesis by (simp add: card_image)
qed

lemma card_hseg: "card (hseg b lo hi) = nat (hi - lo)"
proof -
  have "hseg b lo hi = (\<lambda>x. (x, b)) ` {lo..<hi}" by (auto simp: hseg_def)
  moreover have "inj_on (\<lambda>x. (x, b)) {lo..<hi}" by (simp add: inj_on_def)
  ultimately show ?thesis by (simp add: card_image)
qed

lemma vseg_connected:
  assumes "lo \<le> y"
  shows "y < hi \<longrightarrow> ((a, lo), (a, y)) \<in> same_side (vseg a lo hi) True"
  using assms
proof (induction y rule: int_ge_induct)
  case base
  show ?case by (simp add: same_side_def)
next
  case (step i)
  show ?case
  proof
    assume hi: "i + 1 < hi"
    with step have "((a, lo), (a, i)) \<in> same_side (vseg a lo hi) True" by simp
    moreover have "((a, i), (a, i + 1)) \<in> {(p, q). p \<in> vseg a lo hi \<and> q \<in> vseg a lo hi \<and> side_adjacent True p q}"
      using step.hyps hi by (simp add: vseg_def side_adjacent_def)
    ultimately show "((a, lo), (a, i + 1)) \<in> same_side (vseg a lo hi) True"
      unfolding same_side_def by (rule rtrancl_into_rtrancl)
  qed
qed

lemma hseg_connected:
  assumes "lo \<le> x"
  shows "x < hi \<longrightarrow> ((lo, b), (x, b)) \<in> same_side (hseg b lo hi) False"
  using assms
proof (induction x rule: int_ge_induct)
  case base
  show ?case by (simp add: same_side_def)
next
  case (step i)
  show ?case
  proof
    assume hi: "i + 1 < hi"
    with step have "((lo, b), (i, b)) \<in> same_side (hseg b lo hi) False" by simp
    moreover have "((i, b), (i + 1, b)) \<in> {(p, q). p \<in> hseg b lo hi \<and> q \<in> hseg b lo hi \<and> side_adjacent False p q}"
      using step.hyps hi by (simp add: hseg_def side_adjacent_def)
    ultimately show "((lo, b), (i + 1, b)) \<in> same_side (hseg b lo hi) False"
      unfolding same_side_def by (rule rtrancl_into_rtrancl)
  qed
qed

lemma side_count_vseg: "lo < hi \<Longrightarrow> side_count (vseg a lo hi) True = 1"
proof (rule side_count_one[where ?b0.0 = "(a, lo)"])
  assume "lo < hi"
  then show "(a, lo) \<in> vseg a lo hi" by (simp add: vseg_def)
next
  fix b assume "b \<in> vseg a lo hi"
  then obtain y where "b = (a, y)" "lo \<le> y" "y < hi" by (auto simp: vseg_def)
  with vseg_connected[of lo y hi a] show "((a, lo), b) \<in> same_side (vseg a lo hi) True" by simp
qed

lemma side_count_hseg: "lo < hi \<Longrightarrow> side_count (hseg b lo hi) False = 1"
proof (rule side_count_one[where ?b0.0 = "(lo, b)"])
  assume "lo < hi"
  then show "(lo, b) \<in> hseg b lo hi" by (simp add: hseg_def)
next
  fix c assume "c \<in> hseg b lo hi"
  then obtain x where "c = (x, b)" "lo \<le> x" "x < hi" by (auto simp: hseg_def)
  with hseg_connected[of lo x hi b] show "((lo, b), c) \<in> same_side (hseg b lo hi) False" by simp
qed

lemma sides_spec_rect:
  assumes "set (cells r) = rect x0 y0 w h" "0 < w" "0 < h"
  shows "sides_spec r = 4"
  unfolding sides_spec_def Let_def assms(1) boundary_rect[OF assms(2,3)]
  using assms(2,3) by (simp add: side_count_vseg side_count_hseg)

lemma length_edge_cells_card:
  "distinct cs \<Longrightarrow> length (edge_cells cs d) = card (boundary (set cs) d)"
proof -
  assume "distinct cs"
  then have "distinct (edge_cells cs d)" by (simp add: edge_cells_def)
  then have "card (set (edge_cells cs d)) = length (edge_cells cs d)" by (rule distinct_card)
  then show ?thesis by (simp only: set_edge_cells)
qed

lemma perimeter_boundary_cards:
  assumes "\<forall>(x, y) \<in> set (cells r). inBounds G x y" "distinct (cells r)"
  shows "computePerimeter G r =
         card (boundary (set (cells r)) (-1, 0)) + card (boundary (set (cells r)) (1, 0))
       + card (boundary (set (cells r)) (0, -1)) + card (boundary (set (cells r)) (0, 1))"
  unfolding perimeter_edge_cells[OF assms(1)] by (simp add: length_edge_cells_card[OF assms(2)])

lemma perimeter_rect:
  assumes "\<forall>(x, y) \<in> set (cells r). inBounds G x y" "distinct (cells r)"
    "set (cells r) = rect x0 y0 w h" "0 < w" "0 < h"
  shows "int (computePerimeter G r) = 2 * (w + h)"
  unfolding perimeter_boundary_cards[OF assms(1,2)] assms(3) boundary_rect[OF assms(4,5)]
  using assms(4,5) by (simp add: card_vseg card_hseg)

subsection \<open>Runs and concave corners\<close>

lemma side_adjacent_neq: "side_adjacent v a b \<Longrightarrow> a \<noteq> b"
  by (auto simp: side_adjacent_def split: if_splits)

lemma finite_boundary: "finite S \<Longrightarrow> finite (boundary S d)"
  by (simp add: boundary_def)

lemma sides_spec_le:
  assumes "finite (set (cells r))"
  shows "sides_spec r \<le>
         card (boundary (set (cells r)) (-1, 0)) + card (boundary (set (cells r)) (1, 0))
       + card (boundary (set (cells r)) (0, -1)) + card (boundary (set (cells r)) (0, 1))"
  unfolding sides_spec_def Let_def
  using side_count_le[OF finite_boundary[OF assms], of "(-1, 0)" True]
    side_count_le[OF finite_boundary[OF assms], of "(1, 0)" True]
    side_count_le[OF finite_boundary[OF assms], of "(0, -1)" False]
    side_count_le[OF finite_boundary[OF assms], of "(0, 1)" False]
  by linarith

lemma sides_spec_less:
  assumes "has_long_run (set (cells r))"
  shows "sides_spec r <
         card (boundary (set (cells r)) (-1, 0)) + card (boundary (set (cells r)) (1, 0))
       + card (boundary (set (cells r)) (0, -1)) + card (boundary (set (cells r)) (0, 1))"
proof -
  let ?S = "set (cells r)"
  have fin: "finite (boundary ?S d)" for d by (rule finite_boundary) simp
  note le = side_count_le[OF fin]
  from assms obtain d v a b where dv: "(d, v) \<in> set orientations"
    and ab: "a \<in> boundary ?S d" "b \<in> boundary ?S d" "side_adjacent v a b"
    unfolding has_long_run_def by blast
  from side_count_less[OF fin ab(1,2) side_adjacent_neq[OF ab(3)] ab(3)]
  have less: "side_count (boundary ?S d) v < card (boundary ?S d)" .
  from dv consider "d = (-1, 0)" "v" | "d = (1, 0)" "v" | "d = (0, -1)" "\<not> v" | "d = (0, 1)" "\<not> v"
    by (auto simp: orientations_def)
  then show ?thesis
  proof cases
    case 1
    with less le[of "(1, 0)" True] le[of "(0, -1)" False] le[of "(0, 1)" False] show ?thesis
      unfolding sides_spec_def Let_def by simp
  next
    case 2
    with less le[of "(-1, 0)" True] le[of "(0, -1)" False] le[of "(0, 1)" False] show ?thesis
      unfolding sides_spec_def Let_def by simp
  next
    case 3
    with less le[of "(-1, 0)" True] le[of "(1, 0)" True] le[of "(0, 1)" False] show ?thesis
      unfolding sides_spec_def Let_def by simp
  next
    case 4
    with less le[of "(-1, 0)" True] le[of "(1, 0)" True] le[of "(0, -1)" False] show ?thesis
      unfolding sides_spec_def Let_def by simp
  qed
qed

lemma in_boundary_iff: "c \<in> boundary S (dx, dy) \<longleftrightarrow> c \<in> S \<and> (fst c + dx, snd c + dy) \<notin> S"
  by (simp add: boundary_def exposed_def)

lemma extreme_cell:
  fixes S :: "Cell set"
  assumes "finite S" "S \<noteq> {}" "0 < dx * dx + dy * dy"
  shows "\<exists>c \<in> S. (fst c + dx, snd c + dy) \<notin> S \<and>
           (\<forall>c' \<in> S. dx * fst c' + dy * snd c' \<le> dx * fst c + dy * snd c)"
proof -
  let ?phi = "\<lambda>c :: Cell. dx * fst c + dy * snd c"
  from assms(1,2) have "Max (?phi ` S) \<in> ?phi ` S" by (intro Max_in) auto
  then obtain c where c: "c \<in> S" "?phi c = Max (?phi ` S)" by auto
  have max: "?phi c' \<le> ?phi c" if "c' \<in> S" for c'
    using assms(1) that c(2) by simp
  have "(fst c + dx, snd c + dy) \<notin> S"
  proof
    assume "(fst c + dx, snd c + dy) \<in> S"
    from max[OF this] have "dx * dx + dy * dy \<le> 0" by (simp add: algebra_simps)
    with assms(3) show False by simp
  qed
  with c(1) max show ?thesis by blast
qed

lemma boundary_nonempty:
  assumes "finite S" "S \<noteq> {}" "0 < dx * dx + dy * dy"
  shows "boundary S (dx, dy) \<noteq> {}"
proof -
  from extreme_cell[OF assms] obtain c where "c \<in> S" "(fst c + dx, snd c + dy) \<notin> S" by blast
  then have "c \<in> boundary S (dx, dy)" by (simp add: in_boundary_iff)
  then show ?thesis by blast
qed

lemma right_boundary_beyond:
  assumes "finite S" "(x, y) \<in> S"
  shows "\<exists>c \<in> boundary S (1, 0). x \<le> fst c"
proof -
  let ?S' = "{c \<in> S. snd c = y \<and> x \<le> fst c}"
  from assms have "finite ?S'" "?S' \<noteq> {}" by auto
  from extreme_cell[OF this, of 1 0] obtain c where
    c: "c \<in> S" "snd c = y" "x \<le> fst c" "(fst c + 1, snd c + 0) \<notin> ?S'" by auto
  then have "(fst c + 1, snd c + 0) \<notin> S" by auto
  with c(1) have "c \<in> boundary S (1, 0)" by (simp add: in_boundary_iff)
  with c(3) show ?thesis by blast
qed

lemma left_boundary_beyond:
  assumes "finite S" "(x, y) \<in> S"
  shows "\<exists>c \<in> boundary S (-1, 0). fst c \<le> x"
proof -
  let ?S' = "{c \<in> S. snd c = y \<and> fst c \<le> x}"
  from assms have "finite ?S'" "?S' \<noteq> {}" by auto
  from extreme_cell[OF this, of "-1" 0] obtain c where
    c: "c \<in> S" "snd c = y" "fst c \<le> x" "(fst c + (-1), snd c + 0) \<notin> ?S'" by auto
  then have "(fst c + (-1), snd c + 0) \<notin> S" by auto
  with c(1) have "c \<in> boundary S (-1, 0)" by (simp add: in_boundary_iff)
  with c(3) show ?thesis by blast
qed

lemma sides_spec_ge_four:
  assumes "cells r \<noteq> []"
  shows "4 \<le> sides_spec r"
proof -
  let ?S = "set (cells r)"
  from assms have ne: "?S \<noteq> {}" by simp
  have "1 \<le> side_count (boundary ?S (dx, dy)) v" if "0 < dx * dx + dy * dy" for dx dy v
    by (rule side_count_pos[OF finite_boundary boundary_nonempty[OF _ ne that]]) simp_all
  from this[of "-1" 0 True] this[of 1 0 True] this[of 0 "-1" False] this[of 0 1 False]
  show ?thesis unfolding sides_spec_def Let_def by simp
qed

lemma sides_spec_concave:
  assumes "concave (set (cells r))"
  shows "4 < sides_spec r"
proof -
  let ?S = "set (cells r)"
  have fin: "finite ?S" by simp
  from assms obtain x y where n: "(x, y) \<notin> ?S"
    and hv: "(x - 1, y) \<in> ?S \<or> (x + 1, y) \<in> ?S" "(x, y - 1) \<in> ?S \<or> (x, y + 1) \<in> ?S"
    unfolding concave_def by blast
  then have ne: "?S \<noteq> {}" by auto
  have pos: "1 \<le> side_count (boundary ?S (dx, dy)) v" if "0 < dx * dx + dy * dy" for dx dy v
    by (rule side_count_pos[OF finite_boundary boundary_nonempty[OF _ ne that]]) simp_all
  from hv(2) obtain y' where y': "(x, y') \<in> ?S" by blast
  from hv(1) have "2 \<le> side_count (boundary ?S (-1, 0)) True \<or> 2 \<le> side_count (boundary ?S (1, 0)) True"
  proof
    assume l: "(x - 1, y) \<in> ?S"
    with n have a: "(x - 1, y) \<in> boundary ?S (1, 0)" by (simp add: in_boundary_iff)
    from right_boundary_beyond[OF fin y'] obtain c where c: "c \<in> boundary ?S (1, 0)" "x \<le> fst c"
      by blast
    then have "fst (x - 1, y) \<noteq> fst c" by simp
    from side_count_ge_two[OF finite_boundary[OF fin] a c(1) this] show ?thesis by simp
  next
    assume r: "(x + 1, y) \<in> ?S"
    with n have a: "(x + 1, y) \<in> boundary ?S (-1, 0)" by (simp add: in_boundary_iff)
    from left_boundary_beyond[OF fin y'] obtain c where c: "c \<in> boundary ?S (-1, 0)" "fst c \<le> x"
      by blast
    then have "fst (x + 1, y) \<noteq> fst c" by simp
    from side_count_ge_two[OF finite_boundary[OF fin] a c(1) this] show ?thesis by simp
  qed
  with pos[of "-1" 0 True] pos[of 1 0 True] pos[of 0 "-1" False] pos[of 0 1 False]
  show ?thesis unfolding sides_spec_def Let_def by auto
qed

subsection \<open>A region with four sides is a rectangle\<close>

lemma row_left_boundary:
  assumes "finite S" "(x, y) \<in> S"
  shows "\<exists>x'. x' \<le> x \<and> (x', y) \<in> boundary S (-1, 0)"
proof -
  let ?S' = "{c \<in> S. snd c = y \<and> fst c \<le> x}"
  from assms have "finite ?S'" "?S' \<noteq> {}" by auto
  from extreme_cell[OF this, of "-1" 0] obtain c where
    c: "c \<in> S" "snd c = y" "fst c \<le> x" "(fst c + (-1), snd c + 0) \<notin> ?S'" by auto
  then have "(fst c + (-1), snd c + 0) \<notin> S" by auto
  with c(1) have "c \<in> boundary S (-1, 0)" by (simp add: in_boundary_iff)
  moreover from c(2) have "c = (fst c, y)" by (simp add: prod_eq_iff)
  ultimately have "(fst c, y) \<in> boundary S (-1, 0)" by simp
  with c(3) show ?thesis by blast
qed

lemma row_right_boundary:
  assumes "finite S" "(x, y) \<in> S"
  shows "\<exists>x'. x \<le> x' \<and> (x', y) \<in> boundary S (1, 0)"
proof -
  let ?S' = "{c \<in> S. snd c = y \<and> x \<le> fst c}"
  from assms have "finite ?S'" "?S' \<noteq> {}" by auto
  from extreme_cell[OF this, of 1 0] obtain c where
    c: "c \<in> S" "snd c = y" "x \<le> fst c" "(fst c + 1, snd c + 0) \<notin> ?S'" by auto
  then have "(fst c + 1, snd c + 0) \<notin> S" by auto
  with c(1) have "c \<in> boundary S (1, 0)" by (simp add: in_boundary_iff)
  moreover from c(2) have "c = (fst c, y)" by (simp add: prod_eq_iff)
  ultimately have "(fst c, y) \<in> boundary S (1, 0)" by simp
  with c(3) show ?thesis by blast
qed

lemma side_count_one_related:
  assumes "side_count B v = 1" "a \<in> B" "b \<in> B"
  shows "(a, b) \<in> same_side B v"
proof -
  define f where "f = side_class B v"
  from assms(1) have "card (f ` B) = 1" by (simp only: side_count_image f_def)
  then obtain z where "f ` B = {z}" by (rule card_1_singletonE)
  with assms(2,3) have "f a = z" "f b = z" by blast+
  then have "side_class B v a = side_class B v b" by (simp only: f_def)
  then show ?thesis by (simp only: side_class_eq_iff)
qed

lemma same_side_between:
  assumes "(p, q) \<in> same_side B True" "p \<in> B"
  shows "\<forall>y. min (snd p) (snd q) \<le> y \<and> y \<le> max (snd p) (snd q) \<longrightarrow> (fst p, y) \<in> B"
  using assms(1) unfolding same_side_def
proof (induction rule: rtrancl_induct)
  case base
  have "(fst p, snd p) \<in> B" using assms(2) by simp
  then show ?case by (auto simp: min_def max_def)
next
  case (step z z')
  from step.hyps(1) have "(p, z) \<in> same_side B True" by (simp add: same_side_def)
  from same_side_coordinate[OF this] have fz: "fst p = fst z" by simp
  from step.hyps(2) have z': "z' \<in> B" "fst z = fst z'" "\<bar>snd z - snd z'\<bar> = 1"
    by (auto simp: side_adjacent_def)
  show ?case
  proof (intro allI impI)
    fix y assume y: "min (snd p) (snd z') \<le> y \<and> y \<le> max (snd p) (snd z')"
    show "(fst p, y) \<in> B"
    proof (cases "y = snd z'")
      case True
      with fz z'(2) have "(fst p, y) = z'" by (simp add: prod_eq_iff)
      with z'(1) show ?thesis by simp
    next
      case False
      with y z'(3) have "min (snd p) (snd z) \<le> y \<and> y \<le> max (snd p) (snd z)" by linarith
      with step.IH show ?thesis by blast
    qed
  qed
qed

lemma two_vertical_sides_rectangle:
  assumes "finite S" "S \<noteq> {}"
    and l: "side_count (boundary S (-1, 0)) True = 1"
    and r: "side_count (boundary S (1, 0)) True = 1"
  shows "\<exists>x0 y0 w h. S = rect x0 y0 w h"
proof -
  let ?L = "boundary S (-1, 0)" and ?R = "boundary S (1, 0)"
  have LS: "?L \<subseteq> S" and RS: "?R \<subseteq> S" by (auto simp: boundary_def)
  from assms(2) obtain c0 where "c0 \<in> S" by blast
  then obtain xa ya where a: "(xa, ya) \<in> S" by (cases c0) simp
  from row_left_boundary[OF assms(1) a] obtain x0 where x0: "(x0, ya) \<in> ?L" by blast
  from row_right_boundary[OF assms(1) a] obtain x1 where x1: "(x1, ya) \<in> ?R" by blast
  have Lcol: "fst c = x0" if "c \<in> ?L" for c
    using same_side_coordinate[OF side_count_one_related[OF l x0 that]] by simp
  have Rcol: "fst c = x1" if "c \<in> ?R" for c
    using same_side_coordinate[OF side_count_one_related[OF r x1 that]] by simp
  have left: "(x0, y) \<in> ?L \<and> x0 \<le> x" if "(x, y) \<in> S" for x y
  proof -
    from row_left_boundary[OF assms(1) that] obtain x' where x': "x' \<le> x" "(x', y) \<in> ?L" by blast
    with Lcol[OF x'(2)] show ?thesis by simp
  qed
  have right: "(x1, y) \<in> ?R \<and> x \<le> x1" if "(x, y) \<in> S" for x y
  proof -
    from row_right_boundary[OF assms(1) that] obtain x' where x': "x \<le> x'" "(x', y) \<in> ?R" by blast
    with Rcol[OF x'(2)] show ?thesis by simp
  qed
  let ?Y = "snd ` S"
  from assms(1,2) have finY: "finite ?Y" "?Y \<noteq> {}" by auto
  define lo where "lo = Min ?Y"
  define hi where "hi = Max ?Y"
  from finY have "lo \<in> ?Y" "hi \<in> ?Y" unfolding lo_def hi_def by (auto intro: Min_in Max_in)
  then obtain xl xh where "(xl, lo) \<in> S" "(xh, hi) \<in> S" by auto
  with left have Llo: "(x0, lo) \<in> ?L" and Lhi: "(x0, hi) \<in> ?L" by blast+
  have bounds: "lo \<le> y \<and> y \<le> hi" if "(x, y) \<in> S" for x y
  proof -
    from that have "y \<in> ?Y" by force
    with finY(1) show ?thesis unfolding lo_def hi_def by simp
  qed
  from bounds[of x0 lo] LS Llo have lohi: "lo \<le> hi" by blast
  have col0: "(x0, y) \<in> S" if "lo \<le> y" "y \<le> hi" for y
  proof -
    from same_side_between[OF side_count_one_related[OF l Llo Lhi] Llo] that lohi
    have "(x0, y) \<in> ?L" by (simp add: min_def max_def)
    with LS show ?thesis by blast
  qed
  have fill: "x \<le> x1 \<longrightarrow> (x, y) \<in> S" if "x0 \<le> x" "lo \<le> y" "y \<le> hi" for x y
    using that(1)
  proof (induction x rule: int_ge_induct)
    case base
    from col0[OF that(2,3)] show ?case by simp
  next
    case (step i)
    show ?case
    proof
      assume i: "i + 1 \<le> x1"
      with step have in_S: "(i, y) \<in> S" by simp
      show "(i + 1, y) \<in> S"
      proof (rule ccontr)
        assume "(i + 1, y) \<notin> S"
        with in_S have "(i, y) \<in> ?R" by (simp add: in_boundary_iff)
        from Rcol[OF this] i show False by simp
      qed
    qed
  qed
  have "S = rect x0 lo (x1 - x0 + 1) (hi - lo + 1)"
  proof (intro equalityI subsetI)
    fix c assume c: "c \<in> S"
    obtain x y where xy: "c = (x, y)" by (cases c)
    with c left[of x y] right[of x y] bounds[of x y] show "c \<in> rect x0 lo (x1 - x0 + 1) (hi - lo + 1)"
      by (simp add: rect_def)
  next
    fix c assume c: "c \<in> rect x0 lo (x1 - x0 + 1) (hi - lo + 1)"
    obtain x y where xy: "c = (x, y)" by (cases c)
    with c have "x0 \<le> x" "x \<le> x1" "lo \<le> y" "y \<le> hi" by (simp_all add: rect_def)
    with fill[of x y] xy show "c \<in> S" by simp
  qed
  then show ?thesis by blast
qed

lemma sides_spec_not_rectangle:
  assumes "cells r \<noteq> []" "\<not> (\<exists>x0 y0 w h. set (cells r) = rect x0 y0 w h)"
  shows "4 < sides_spec r"
proof -
  let ?S = "set (cells r)"
  from assms(1) have ne: "?S \<noteq> {}" by simp
  have pos: "1 \<le> side_count (boundary ?S (dx, dy)) v" if "0 < dx * dx + dy * dy" for dx dy v
    by (rule side_count_pos[OF finite_boundary boundary_nonempty[OF _ ne that]]) simp_all
  have "\<not> (side_count (boundary ?S (-1, 0)) True = 1 \<and> side_count (boundary ?S (1, 0)) True = 1)"
    using two_vertical_sides_rectangle[OF _ ne] assms(2) by auto
  with pos[of "-1" 0 True] pos[of 1 0 True] pos[of 0 "-1" False] pos[of 0 1 False]
  show ?thesis unfolding sides_spec_def Let_def by auto
qed

section \<open>Well-formed grids and whole runs\<close>

lemma well_formed_dims_ok: "well_formed G \<Longrightarrow> dims_ok G"
  by (simp add: well_formed_def dims_ok_def)

lemma well_formed_grid_at:
  assumes "well_formed G" "inBounds G x y"
  shows "\<exists>c. grid_at G x y = Some (Some c)"
proof -
  from assms have y: "0 \<le> y" "nat y < length (grid G)"
    by (auto simp: well_formed_def inBounds_def)
  then have "grid G ! nat y \<in> set (grid G)" by simp
  with assms have "int (length (grid G ! nat y)) = width G"
    by (simp add: well_formed_def)
  with assms y show ?thesis
    by (auto simp: grid_at_def js_index_def inBounds_def)
qed

lemma well_formed_origin: "well_formed G \<Longrightarrow> (0, 0) \<in> grid_cells G"
  by (cases "grid G") (auto simp: well_formed_def grid_cells_def inBounds_def)

lemma card_grid_cells: "card (grid_cells G) = nat (width G) * nat (height G)"
proof -
  have "grid_cells G = {0..<width G} \<times> {0..<height G}"
    by (auto simp: grid_cells_def inBounds_def)
  then show ?thesis by simp
qed

lemma findRegions_disjoint:
  assumes "dims_ok G" "findRegions G = Some rs" "i < length rs" "j < length rs" "i \<noteq> j"
  shows "set (cells (rs ! i)) \<inter> set (cells (rs ! j)) = {}"
proof -
  note inv = findRegions_inv[OF assms(1,2)]
  from inv(3) have "[] \<notin> set (map cells rs)" by auto
  then have "removeAll [] (map cells rs) = map cells rs" by simp
  with inv(2) have dm: "distinct (map cells rs)"
    and dj: "\<forall>ys zs. ys \<in> set (map cells rs) \<and> zs \<in> set (map cells rs) \<and> ys \<noteq> zs \<longrightarrow> set ys \<inter> set zs = {}"
    by (simp_all add: distinct_concat_iff)
  from assms(3,4) have "i < length (map cells rs)" "j < length (map cells rs)" by simp_all
  from nth_eq_iff_index_eq[OF dm this] assms(5) have "map cells rs ! i \<noteq> map cells rs ! j"
    by simp
  with assms(3,4) have "cells (rs ! i) \<noteq> cells (rs ! j)" by simp
  moreover from assms(3,4) have "cells (rs ! i) \<in> set (map cells rs)" "cells (rs ! j) \<in> set (map cells rs)"
    by auto
  ultimately show ?thesis using dj by blast
qed

lemma findRegions_region:
  assumes "dims_ok G" "findRegions G = Some rs" "r \<in> set rs"
  shows "distinct (cells r)" and "cells r \<noteq> []"
    and "\<forall>(x, y) \<in> set (cells r). inBounds G x y"
    and "\<And>x y. (x, y) \<in> set (cells r) \<Longrightarrow> grid_at G x y = Some (char r)"
proof -
  note inv = findRegions_inv[OF assms(1,2)]
  from inv(2) assms(3) show "distinct (cells r)" by (auto simp: distinct_concat_iff)
  from inv(3) assms(3) show "cells r \<noteq> []" by blast
  from inv(3) assms(3) show "\<forall>(x, y) \<in> set (cells r). inBounds G x y" by fastforce
  fix x y assume "(x, y) \<in> set (cells r)"
  with inv(3) assms(3) show "grid_at G x y = Some (char r)" by fastforce
qed

subsection \<open>Grids of distinct symbols and uniform grids\<close>

lemma all_distinct_single:
  assumes "dims_ok G" "findRegions G = Some rs" "all_distinct G" "r \<in> set rs"
  shows "\<exists>c. cells r = [c]"
proof -
  note reg = findRegions_region[OF assms(1,2,4)]
  from reg(2) obtain c cs where r: "cells r = c # cs" by (cases "cells r") auto
  have "cs = []"
  proof (rule ccontr)
    assume "cs \<noteq> []"
    then obtain c' cs' where cs: "cs = c' # cs'" by (cases cs) auto
    with r reg(1) have ne: "c \<noteq> c'" by auto
    from r cs have mem: "c \<in> set (cells r)" "c' \<in> set (cells r)" by simp_all
    with reg(3) have "c \<in> grid_cells G" "c' \<in> grid_cells G" by (auto simp: grid_cells_def)
    moreover from mem reg(4)[of "fst c" "snd c"] reg(4)[of "fst c'" "snd c'"]
    have "grid_at G (fst c) (snd c) = grid_at G (fst c') (snd c')" by simp
    ultimately have "c = c'" using assms(3) unfolding all_distinct_def by blast
    with ne show False by simp
  qed
  with r show ?thesis by simp
qed

lemma all_distinct_count:
  assumes "dims_ok G" "findRegions G = Some rs" "all_distinct G"
  shows "length rs = card (grid_cells G)"
proof -
  note inv = findRegions_inv[OF assms(1,2)]
  have "\<forall>r \<in> set rs. length (cells r) = 1"
    using all_distinct_single[OF assms] by fastforce
  then have "map (length \<circ> cells) rs = replicate (length rs) 1"
    by (induction rs) auto
  then have "length (concat (map cells rs)) = length rs"
    by (simp add: length_concat sum_list_replicate)
  moreover from inv(1,2) have "length (concat (map cells rs)) = card (grid_cells G)"
    using distinct_card[of "concat (map cells rs)"] by simp
  ultimately show ?thesis by simp
qed

lemma uniform_single_region:
  assumes "well_formed G" "findRegions G = Some rs" "uniform G"
  shows "\<exists>r. rs = [r] \<and> set (cells r) = grid_cells G"
proof -
  note d = well_formed_dims_ok[OF assms(1)]
  note inv = findRegions_inv[OF d assms(2)]
  from assms(3) obtain s where s: "\<And>x y. inBounds G x y \<Longrightarrow> grid_at G x y = Some (Some s)"
    unfolding uniform_def grid_cells_def by fastforce
  have whole: "set (cells r) = grid_cells G" if "r \<in> set rs" for r
  proof -
    note reg = findRegions_region[OF d assms(2) that]
    from reg(2) obtain x0 y0 where start: "(x0, y0) \<in> set (cells r)" by (cases "cells r") auto
    with reg(3) reg(4)[OF start] s[of x0 y0] have ch: "char r = Some s" by auto
    from findRegions_closed[OF d assms(2)] that
    have cl: "closed_under G (Some s) (set (cells r)) (set (cells r))"
      unfolding regions_closed_def ch[symmetric] by blast
    show ?thesis
    proof (rule closed_set_is_grid[OF _ start])
      show "set (cells r) \<subseteq> grid_cells G" using reg(3) by (auto simp: grid_cells_def)
    next
      fix x y dx dy
      assume "(x, y) \<in> set (cells r)" "(dx, dy) \<in> set directions" "inBounds G (x + dx) (y + dy)"
      with closed_underD[OF cl] s show "(x + dx, y + dy) \<in> set (cells r)" by blast
    qed
  qed
  from well_formed_origin[OF assms(1)] inv(1) have "rs \<noteq> []" by auto
  moreover have "\<not> 1 < length rs"
  proof
    assume "1 < length rs"
    then have l: "0 < length rs" "1 < length rs" by auto
    then have "rs ! 0 \<in> set rs" "rs ! 1 \<in> set rs" by simp_all
    then have "set (cells (rs ! 0)) = grid_cells G" "set (cells (rs ! 1)) = grid_cells G"
      by (simp_all only: whole)
    with findRegions_disjoint[OF d assms(2) l] have "grid_cells G = {}" by simp
    with well_formed_origin[OF assms(1)] show False by simp
  qed
  ultimately obtain r where "rs = [r]" by (cases rs; cases "tl rs") auto
  with whole[of r] show ?thesis by simp
qed

subsection \<open>The totals\<close>

lemma part1_sum: "part1 G rs = sum_list (map (\<lambda>r. length (cells r) * computePerimeter G r) rs)"
  unfolding part1_def by (simp add: fold_add_sum_list)

lemma part2_fold:
  "for_each rs (\<lambda>region total. case computeSides region of None \<Rightarrow> None
                  | Some sides \<Rightarrow> Some (total + length (cells region) * sides)) t
   = Some (t + sum_list (map (\<lambda>r. length (cells r) * sides_spec r) rs))"
  by (induction rs arbitrary: t) (simp_all add: computeSides_correct)

lemma part2_sum: "part2 rs = Some (sum_list (map (\<lambda>r. length (cells r) * sides_spec r) rs))"
  unfolding part2_def by (simp add: part2_fold)

lemma solve_total:
  assumes "dims_ok G"
  shows "\<exists>rs. findRegions G = Some rs \<and>
           solve G = Some (sum_list (map (\<lambda>r. length (cells r) * computePerimeter G r) rs),
                           sum_list (map (\<lambda>r. length (cells r) * sides_spec r) rs))"
proof -
  from findRegions_total[OF assms] obtain rs where "findRegions G = Some rs" by blast
  then show ?thesis by (simp add: solve_def part1_sum part2_sum)
qed

lemma split_on_nonempty: "split_on sep s \<noteq> []"
  by (induction s) (auto split: list.splits)

lemma parseInput_total:
  "parseInput text = Some \<lparr>grid = rows_of text, height = int (length (rows_of text)),
                           width = int (length (hd (rows_of text)))\<rparr>"
  using split_on_nonempty[of "CHR 0x0A" "trim text"]
  by (cases "split_on (CHR 0x0A) (trim text)") (simp_all add: parseInput_def rows_of_def)

section \<open>Evaluating the program on the sample grids\<close>

lemma well_formed_G_AB: "well_formed G_AB"
  by (simp add: well_formed_def G_AB_def)

lemma well_formed_G_AA: "well_formed G_AA"
  by (simp add: well_formed_def G_AA_def)

lemma well_formed_G_L: "well_formed G_L"
  by (simp add: well_formed_def G_L_def)

lemma findRegions_G_AB: "findRegions G_AB = Some [R_A, R_B]"
  by code_simp

lemma findRegions_G_AA: "findRegions G_AA = Some [R_AA]"
  by code_simp

lemma findRegions_G_L: "findRegions G_L = Some [R_L, R_B]"
  by code_simp

lemma computePerimeter_R_AA: "computePerimeter G_AA R_AA = 6"
  by code_simp

lemma computePerimeter_R_L: "computePerimeter G_L R_L = 8"
  by code_simp

lemma computeSides_R_L: "computeSides R_L = Some 6"
  by code_simp

lemma rows_of_padded_text: "rows_of padded_text = [''A'']"
  by code_simp

lemma main_padded_text: "main padded_text = Some (4, 4)"
  by code_simp

lemma collectEdges_R_AA:
  "collectEdges R_AA = ([''0,0''], [''1,0''], [''0,0'', ''1,0''], [''0,0'', ''1,0''])"
  by code_simp

lemma grid_cells_two_by_one:
  assumes "height G = 1" "width G = 2"
  shows "grid_cells G = {(0, 0), (1, 0)}"
  using assms by (auto simp: grid_cells_def inBounds_def)

lemma all_distinct_G_AB: "all_distinct G_AB"
  unfolding all_distinct_def grid_cells_two_by_one[of G_AB, simplified G_AB_def, simplified, folded G_AB_def]
  by (simp add: G_AB_def grid_at_def js_index_def)

lemma uniform_G_AA: "uniform G_AA"
  unfolding uniform_def grid_cells_two_by_one[of G_AA, simplified G_AA_def, simplified, folded G_AA_def]
  by (simp add: G_AA_def grid_at_def js_index_def)

section \<open>The claims\<close>

subsection \<open>Segmentation\<close>

text \<open>
  C2. On a well-formed grid the regions produced by \<open>findRegions\<close> partition the grid: the
  union of their cell sets is the set of in-bounds cells, and the cell sets of the regions
  at two different positions of the result are disjoint.
\<close>

theorem regions_partition_grid:
  assumes "well_formed G" "findRegions G = Some rs"
  shows "(\<Union>r \<in> set rs. set (cells r)) = grid_cells G \<and>
         (\<forall>i < length rs. \<forall>j < length rs. i \<noteq> j \<longrightarrow> set (cells (rs ! i)) \<inter> set (cells (rs ! j)) = {})"
proof -
  note d = well_formed_dims_ok[OF assms(1)]
  from findRegions_inv(1)[OF d assms(2)] have "(\<Union>r \<in> set rs. set (cells r)) = grid_cells G"
    by simp
  with findRegions_disjoint[OF d assms(2)] show ?thesis by blast
qed

theorem regions_partition_grid_witness:
  "set (cells R_A) \<union> set (cells R_B) = grid_cells G_AB \<and> set (cells R_A) \<inter> set (cells R_B) = {}"
proof -
  from regions_partition_grid[OF well_formed_G_AB findRegions_G_AB]
  have u: "(\<Union>r \<in> set [R_A, R_B]. set (cells r)) = grid_cells G_AB"
    and dj: "\<forall>i < length [R_A, R_B]. \<forall>j < length [R_A, R_B]. i \<noteq> j \<longrightarrow>
               set (cells ([R_A, R_B] ! i)) \<inter> set (cells ([R_A, R_B] ! j)) = {}"
    by blast+
  from dj[rule_format, of 0 1] have "set (cells R_A) \<inter> set (cells R_B) = {}" by simp
  with u show ?thesis by simp
qed

text \<open>
  C10. Every region produced by \<open>findRegions\<close> on a well-formed grid lists each of its
  cells once, so that its area, the length of the list, is the number of its cells; and
  every listed cell is in bounds and holds, in the grid, the symbol recorded in the region,
  which is a character of the grid.
\<close>

theorem region_cells_distinct_in_bounds_same_symbol:
  assumes "well_formed G" "findRegions G = Some rs" "r \<in> set rs"
  shows "distinct (cells r) \<and> length (cells r) = card (set (cells r)) \<and>
         (\<exists>c. char r = Some c) \<and>
         (\<forall>(x, y) \<in> set (cells r). inBounds G x y \<and> grid_at G x y = Some (char r))"
proof -
  note reg = findRegions_region[OF well_formed_dims_ok[OF assms(1)] assms(2,3)]
  from reg(2) obtain x y where xy: "(x, y) \<in> set (cells r)" by (cases "cells r") auto
  with reg(3) have "inBounds G x y" by auto
  with well_formed_grid_at[OF assms(1), of x y] reg(4)[OF xy] have "\<exists>c. char r = Some c" by auto
  moreover have "\<forall>(x, y) \<in> set (cells r). inBounds G x y \<and> grid_at G x y = Some (char r)"
    using reg(3,4) by auto
  ultimately show ?thesis using reg(1) by (simp add: distinct_card)
qed

theorem region_cells_distinct_in_bounds_same_symbol_witness:
  "distinct (cells R_AA) \<and> length (cells R_AA) = card (set (cells R_AA)) \<and>
   inBounds G_AA 0 0 \<and> grid_at G_AA 0 0 = Some (Some CHR ''A'') \<and>
   inBounds G_AA 1 0 \<and> grid_at G_AA 1 0 = Some (Some CHR ''A'')"
  using region_cells_distinct_in_bounds_same_symbol[OF well_formed_G_AA findRegions_G_AA, of R_AA]
  by (simp add: R_AA_def)

text \<open>
  C7. On a well-formed grid, segmentation and counting never fail: \<open>findRegions\<close> returns a
  list of regions and \<open>computeSides\<close> returns a number for each of them (\<open>computePerimeter\<close> is
  a pair of bounded loops and a total function of the model). When all symbols of the grid are
  distinct there is one region per cell, each of exactly one cell; when the grid is uniform
  there is exactly one region, and it covers the grid.
\<close>

theorem segmentation_and_counting_total:
  assumes "well_formed G"
  shows "\<exists>rs. findRegions G = Some rs \<and>
           (\<forall>r \<in> set rs. \<exists>n. computeSides r = Some n) \<and>
           (all_distinct G \<longrightarrow>
              length rs = nat (width G) * nat (height G) \<and> (\<forall>r \<in> set rs. \<exists>c. cells r = [c])) \<and>
           (uniform G \<longrightarrow> (\<exists>r. rs = [r] \<and> set (cells r) = grid_cells G))"
proof -
  note d = well_formed_dims_ok[OF assms]
  from findRegions_total[OF d] obtain rs where rs: "findRegions G = Some rs" by blast
  have "\<forall>r \<in> set rs. \<exists>n. computeSides r = Some n" by (simp add: computeSides_correct)
  moreover have "length rs = nat (width G) * nat (height G) \<and> (\<forall>r \<in> set rs. \<exists>c. cells r = [c])"
    if "all_distinct G"
    using all_distinct_count[OF d rs that] all_distinct_single[OF d rs that]
    by (simp add: card_grid_cells)
  moreover have "\<exists>r. rs = [r] \<and> set (cells r) = grid_cells G" if "uniform G"
    using uniform_single_region[OF assms rs that] .
  ultimately show ?thesis using rs by blast
qed

theorem segmentation_and_counting_total_witness:
  "(\<exists>rs. findRegions G_AB = Some rs \<and> length rs = 2) \<and>
   (\<exists>r. findRegions G_AA = Some [r] \<and> set (cells r) = grid_cells G_AA)"
proof
  from segmentation_and_counting_total[OF well_formed_G_AB] all_distinct_G_AB
  obtain rs where "findRegions G_AB = Some rs" "length rs = nat (width G_AB) * nat (height G_AB)"
    by blast
  then show "\<exists>rs. findRegions G_AB = Some rs \<and> length rs = 2" by (simp add: G_AB_def)
next
  from segmentation_and_counting_total[OF well_formed_G_AA] uniform_G_AA
  show "\<exists>r. findRegions G_AA = Some [r] \<and> set (cells r) = grid_cells G_AA" by blast
qed

subsection \<open>Perimeter and sides\<close>

text \<open>
  C1. For every region, the side count computed by \<open>computeSides\<close> is the sum, over the
  four edge orientations, of the number of connected components of that orientation's
  set of boundary cells, where boundary cells of a left or right edge are connected when
  they have the same x and y differing by 1, and boundary cells of a top or bottom edge
  when they have the same y and x differing by 1. In particular \<open>computeSides\<close> always
  returns.
\<close>

theorem computeSides_counts_connected_components:
  "computeSides r =
     Some (card (boundary (set (cells r)) (-1, 0) // same_side (boundary (set (cells r)) (-1, 0)) True)
         + card (boundary (set (cells r)) (1, 0) // same_side (boundary (set (cells r)) (1, 0)) True)
         + card (boundary (set (cells r)) (0, -1) // same_side (boundary (set (cells r)) (0, -1)) False)
         + card (boundary (set (cells r)) (0, 1) // same_side (boundary (set (cells r)) (0, 1)) False))"
  using computeSides_correct[of r] by (simp add: sides_spec_def side_count_def Let_def)

theorem computeSides_counts_connected_components_witness:
  "card (boundary (set (cells R_L)) (-1, 0) // same_side (boundary (set (cells R_L)) (-1, 0)) True)
   + card (boundary (set (cells R_L)) (1, 0) // same_side (boundary (set (cells R_L)) (1, 0)) True)
   + card (boundary (set (cells R_L)) (0, -1) // same_side (boundary (set (cells R_L)) (0, -1)) False)
   + card (boundary (set (cells R_L)) (0, 1) // same_side (boundary (set (cells R_L)) (0, 1)) False) = 6"
  using computeSides_counts_connected_components[of R_L] by (simp add: computeSides_R_L)

text \<open>
  C3. For every region produced by \<open>findRegions\<close> on a well-formed grid, the perimeter
  computed by \<open>computePerimeter\<close> is 4 times the area minus 2 times the number of
  unordered pairs of region cells that are 4-neighbours of each other.
\<close>

theorem perimeter_is_four_area_minus_twice_adjacent_pairs:
  assumes "well_formed G" "findRegions G = Some rs" "r \<in> set rs"
  shows "int (computePerimeter G r) = 4 * int (length (cells r)) - 2 * int (internalAdjacentPairs r)"
proof -
  note reg = findRegions_region[OF well_formed_dims_ok[OF assms(1)] assms(2,3)]
  from reg(3,1) show ?thesis by (rule perimeter_closed_form)
qed

theorem perimeter_is_four_area_minus_twice_adjacent_pairs_witness:
  "internalAdjacentPairs R_AA = 1"
  using perimeter_is_four_area_minus_twice_adjacent_pairs[OF well_formed_G_AA findRegions_G_AA, of R_AA]
  by (simp add: computePerimeter_R_AA) (simp add: R_AA_def)

text \<open>
  C9. For every region produced by \<open>findRegions\<close> on a well-formed grid, the four edge
  lists collected by \<open>computeSides\<close>, which test only membership in the region's set of
  coordinate keys, hold together as many entries as the perimeter computed by
  \<open>computePerimeter\<close>, which also tests the grid bounds.
\<close>

theorem collected_edges_total_is_perimeter:
  assumes "well_formed G" "findRegions G = Some rs" "r \<in> set rs"
    and "collectEdges r = (leftEdges, rightEdges, topEdges, bottomEdges)"
  shows "length leftEdges + length rightEdges + length topEdges + length bottomEdges
         = computePerimeter G r"
proof -
  note reg = findRegions_region[OF well_formed_dims_ok[OF assms(1)] assms(2,3)]
  from assms(4) have "leftEdges = map key_of (edge_cells (cells r) (-1, 0))"
    "rightEdges = map key_of (edge_cells (cells r) (1, 0))"
    "topEdges = map key_of (edge_cells (cells r) (0, -1))"
    "bottomEdges = map key_of (edge_cells (cells r) (0, 1))"
    by (simp_all add: collectEdges_eq)
  with perimeter_edge_cells[OF reg(3)] show ?thesis by simp
qed

theorem collected_edges_total_is_perimeter_witness:
  "computePerimeter G_AA R_AA = 6"
  using collected_edges_total_is_perimeter[OF well_formed_G_AA findRegions_G_AA _ collectEdges_R_AA]
  by simp

text \<open>
  C6. A region produced by \<open>findRegions\<close> on a well-formed grid whose cells fill a rectangle
  of width \<open>w\<close> and height \<open>h\<close> has perimeter \<open>2 * (w + h)\<close> and exactly 4 sides; in
  particular a region of a single cell has perimeter 4 and 4 sides.
\<close>

theorem rectangle_perimeter_and_sides:
  assumes "well_formed G" "findRegions G = Some rs" "r \<in> set rs"
  shows "(set (cells r) = rect x0 y0 w h \<and> 0 < w \<and> 0 < h \<longrightarrow>
            int (computePerimeter G r) = 2 * (w + h) \<and> computeSides r = Some 4) \<and>
         ((\<exists>c. cells r = [c]) \<longrightarrow> computePerimeter G r = 4 \<and> computeSides r = Some 4)"
proof -
  note reg = findRegions_region[OF well_formed_dims_ok[OF assms(1)] assms(2,3)]
  have gen: "int (computePerimeter G r) = 2 * (w' + h') \<and> computeSides r = Some 4"
    if "set (cells r) = rect x' y' w' h'" "0 < w'" "0 < h'" for x' y' w' h'
    using perimeter_rect[OF reg(3,1) that] sides_spec_rect[OF that]
    by (simp add: computeSides_correct)
  have "computePerimeter G r = 4 \<and> computeSides r = Some 4" if "\<exists>c. cells r = [c]"
  proof -
    from that obtain x y where "cells r = [(x, y)]" by auto
    then have "set (cells r) = rect x y 1 1" by (auto simp: rect_def)
    from gen[OF this] show ?thesis by simp
  qed
  with gen show ?thesis by blast
qed

theorem rectangle_perimeter_and_sides_witness:
  "computePerimeter G_AA R_AA = 6 \<and> computeSides R_AA = Some 4 \<and>
   computePerimeter G_AB R_A = 4 \<and> computeSides R_A = Some 4"
proof -
  have "set (cells R_AA) = rect 0 0 2 1" by (auto simp: R_AA_def rect_def)
  with rectangle_perimeter_and_sides[OF well_formed_G_AA findRegions_G_AA, of R_AA 0 0 2 1]
  have "computePerimeter G_AA R_AA = 6 \<and> computeSides R_AA = Some 4" by simp
  moreover from rectangle_perimeter_and_sides[OF well_formed_G_AB findRegions_G_AB, of R_A]
  have "computePerimeter G_AB R_A = 4 \<and> computeSides R_A = Some 4" by (simp add: R_A_def)
  ultimately show ?thesis by simp
qed

text \<open>
  C8. For a region produced by \<open>findRegions\<close> on a well-formed grid: if some orientation has
  two boundary cells next to each other along the boundary line (a straight boundary run
  longer than 1), the side count is smaller than the perimeter; and if the region is concave
  (some cell outside it has both a horizontal and a vertical neighbour inside it, as at the
  inner corner of an L or a U), the side count is greater than 4. The same holds for every
  region whose cells do not fill a rectangle.
\<close>

theorem sides_below_perimeter_and_above_four:
  assumes "well_formed G" "findRegions G = Some rs" "r \<in> set rs"
  shows "\<exists>n. computeSides r = Some n \<and>
           (has_long_run (set (cells r)) \<longrightarrow> n < computePerimeter G r) \<and>
           (concave (set (cells r)) \<longrightarrow> 4 < n) \<and>
           (\<not> (\<exists>x0 y0 w h. set (cells r) = rect x0 y0 w h) \<longrightarrow> 4 < n)"
proof -
  note reg = findRegions_region[OF well_formed_dims_ok[OF assms(1)] assms(2,3)]
  have "sides_spec r < computePerimeter G r" if "has_long_run (set (cells r))"
    using sides_spec_less[OF that] perimeter_boundary_cards[OF reg(3,1)] by simp
  moreover have "4 < sides_spec r" if "concave (set (cells r))"
    using that by (rule sides_spec_concave)
  moreover have "4 < sides_spec r" if "\<not> (\<exists>x0 y0 w h. set (cells r) = rect x0 y0 w h)"
    using reg(2) that by (rule sides_spec_not_rectangle)
  ultimately show ?thesis using computeSides_correct[of r] by blast
qed

theorem sides_below_perimeter_and_above_four_witness:
  "\<exists>n. computeSides R_L = Some n \<and> n < 8 \<and> 4 < n"
proof -
  have "(0, 0) \<in> boundary (set (cells R_L)) (-1, 0)" "(0, 1) \<in> boundary (set (cells R_L)) (-1, 0)"
    "side_adjacent True (0, 0) (0, 1)"
    by (simp_all add: R_L_def boundary_def exposed_def side_adjacent_def)
  then have run: "has_long_run (set (cells R_L))"
    unfolding has_long_run_def orientations_def by fastforce
  have "(1, 0) \<notin> set (cells R_L) \<and> ((1 - 1, 0) \<in> set (cells R_L) \<or> (1 + 1, 0) \<in> set (cells R_L)) \<and>
        ((1, 0 - 1) \<in> set (cells R_L) \<or> (1, 0 + 1) \<in> set (cells R_L))"
    by (simp add: R_L_def)
  then have conc: "concave (set (cells R_L))" unfolding concave_def by blast
  from sides_below_perimeter_and_above_four[OF well_formed_G_L findRegions_G_L, of R_L] run conc
  obtain n where "computeSides R_L = Some n" "n < computePerimeter G_L R_L" "4 < n"
    by auto
  then show ?thesis by (auto simp: computePerimeter_R_L)
qed

subsection \<open>The totals\<close>

text \<open>
  C4. On a well-formed grid the script reports two totals: the sum over all regions of
  area times perimeter, and the sum over all regions of area times the number of sides
  that \<open>computeSides\<close> returns for the region, where the area of a region is the number of
  its cells.
\<close>

theorem totals_are_sums_over_regions:
  assumes "well_formed G"
  shows "\<exists>rs. findRegions G = Some rs \<and>
           (\<forall>r \<in> set rs. length (cells r) = card (set (cells r)) \<and> computeSides r = Some (sides_spec r)) \<and>
           solve G = Some (sum_list (map (\<lambda>r. length (cells r) * computePerimeter G r) rs),
                           sum_list (map (\<lambda>r. length (cells r) * sides_spec r) rs))"
proof -
  note d = well_formed_dims_ok[OF assms]
  from solve_total[OF d] obtain rs where rs: "findRegions G = Some rs"
    "solve G = Some (sum_list (map (\<lambda>r. length (cells r) * computePerimeter G r) rs),
                     sum_list (map (\<lambda>r. length (cells r) * sides_spec r) rs))"
    by blast
  have "length (cells r) = card (set (cells r))" if "r \<in> set rs" for r
    using findRegions_region(1)[OF d rs(1) that] by (simp add: distinct_card)
  with rs show ?thesis by (auto simp: computeSides_correct)
qed

theorem totals_are_sums_over_regions_witness:
  "solve G_AA = Some (2 * computePerimeter G_AA R_AA, 2 * sides_spec R_AA)"
proof -
  from totals_are_sums_over_regions[OF well_formed_G_AA] obtain rs where
    rs: "findRegions G_AA = Some rs"
    "solve G_AA = Some (sum_list (map (\<lambda>r. length (cells r) * computePerimeter G_AA r) rs),
                        sum_list (map (\<lambda>r. length (cells r) * sides_spec r) rs))"
    by blast
  from rs(1) have "rs = [R_AA]" by (simp add: findRegions_G_AA)
  moreover have "length (cells R_AA) = 2" by (simp add: R_AA_def)
  ultimately show ?thesis using rs(2) by simp
qed

subsection \<open>Malformed input\<close>

text \<open>
  C5, as stated: a malformed input (rows of unequal length, or an empty input) makes the
  program fail with an error. It does not: \<open>parseInput\<close> checks nothing. For the two rows
  \<open>AB\<close> and \<open>A\<close> the script takes the missing cell for a region of its own and prints 20
  and 16; for the empty text it prints 0 and 0.
\<close>

theorem malformed_input_is_accepted_counterexample:
  "malformed ragged_text \<and> main ragged_text = Some (20, 16) \<and>
   malformed [] \<and> main [] = Some (0, 0)"
  by code_simp

text \<open>
  C5, amended: \<open>parseInput\<close> performs no validation. For every input text it returns a grid
  whose rows are the lines of the trimmed text, whose height is the number of those lines
  and whose width is the length of the first line, and the script then runs to its end and
  reports two totals.
\<close>

theorem every_input_is_accepted:
  "\<exists>G totals. parseInput text = Some G \<and> grid G = rows_of text \<and>
     height G = int (length (rows_of text)) \<and> width G = int (length (hd (rows_of text))) \<and>
     main text = Some totals"
proof -
  let ?G = "\<lparr>grid = rows_of text, height = int (length (rows_of text)),
             width = int (length (hd (rows_of text)))\<rparr>"
  have "dims_ok ?G" by (simp add: dims_ok_def)
  from solve_total[OF this] obtain totals where "solve ?G = Some totals" by blast
  then show ?thesis by (simp add: main_def parseInput_total)
qed

theorem every_input_is_accepted_witness:
  "\<exists>G. parseInput padded_text = Some G \<and> grid G = [''A''] \<and> height G = 1 \<and> width G = 1 \<and>
       main padded_text = Some (4, 4)"
proof -
  from every_input_is_accepted[of padded_text] obtain G totals where
    "parseInput padded_text = Some G" "grid G = rows_of padded_text"
    "height G = int (length (rows_of padded_text))"
    "width G = int (length (hd (rows_of padded_text)))" "main padded_text = Some totals"
    by blast
  then show ?thesis by (simp add: rows_of_padded_text main_padded_text)
qed

end
